theory Spec2Isabelle
  imports Complex_Main "HOL-Library.AList"
begin

section \<open>Data model of the scanner (src/src/index.js)\<close>

text \<open>
  JavaScript numbers that hold heights, lengths and loop indices are modelled as
  unbounded \<open>int\<close>. The tuning numbers \<open>interval\<close>, \<open>minedSpeed\<close> and \<open>loopCoef\<close>
  are kept in the configuration as the decimal numbers written there (rationals); the
  source computes with the IEEE 754 doubles they denote, and so does \<open>loopThreshold\<close>
  below, with every operation rounded to the nearest double.
  \<open>parseInt(x, 10)\<close> on a height is the identity on \<open>int\<close>.
\<close>

datatype error =
    DuplicatedListenerNames
  | NotDBBaseOperation
  | InvalidScanMode
  | RangeError
  | TypeError
  | CollaboratorError nat

text \<open>
  Modelled from the spec: \<open>constants.QUERY_TYPE\<close> lives in \<open>./common/constants\<close>,
  which is not among the sources; the spec names its values INIT, MISSING, GAP, LOOP, ERROR.
\<close>

datatype phase = INIT | MISSING | GAP | LOOP | ERROR

record tagged =
  scanTags :: "string list"

record tx = tagged +
  txId :: nat

record block = tagged +
  Height :: int
  blockHash :: nat

text \<open>A block of a listener bucket: \<open>{...block, transactionList: [...]}\<close>.\<close>

record listed_block = block +
  transactionList :: "tx list"

text \<open>
  An entry of \<open>txs\<close> is the transaction list of one block; \<open>None\<close> stands for
  JavaScript's \<open>undefined\<close>, which an out-of-range array read yields.
\<close>

type_synonym txs_slot = "tx list option"

record all_result =
  blocks :: "block list"
  txs :: "txs_slot list"
  rtype :: "phase option"
  LIBHeight :: "int option"
  bestHeight :: "int option"

type_synonym buckets = "(string \<times> listed_block list) list"

record listener_result =
  largestHeight :: int
  results :: buckets
  ltype :: "phase option"
  lLIBHeight :: "int option"
  lbestHeight :: "int option"

datatype fetch_result = AllResult all_result | ListenerResult listener_result

record chain_status =
  BestChainHeight :: int
  LastIrreversibleBlockHeight :: int

record listener =
  tag :: string
  bloom :: nat

record config =
  interval :: rat
  txResultsPageSize :: int
  concurrentQueryLimit :: int
  startHeight :: int
  missingHeightList :: "int list"
  scanMode :: string
  listeners :: "listener list"
  maxInsert :: int
  unconfirmedBlockBuffer :: int
  minedSpeed :: rat
  loopCoef :: rat

text \<open>The \<open>options\<close> argument: any subset of the configuration keys.\<close>

record options =
  o_interval :: "rat option"
  o_txResultsPageSize :: "int option"
  o_concurrentQueryLimit :: "int option"
  o_startHeight :: "int option"
  o_missingHeightList :: "int list option"
  o_scanMode :: "string option"
  o_listeners :: "listener list option"
  o_maxInsert :: "int option"
  o_unconfirmedBlockBuffer :: "int option"
  o_minedSpeed :: "rat option"
  o_loopCoef :: "rat option"

text \<open>Calls made to the collaborators, in the order they are made.\<close>

datatype event =
    Init
  | ChainStatus "error + chain_status"
  | Queries "int list"
  | Insert fetch_result
  | SetCallback
  | StartTimer
  | EndTimer
  | Destroy

text \<open>
  The collaborators (chain query client and data sink) are parameters of the model.
  \<open>chainStatus w k\<close> is the node's answer to the \<open>k\<close>-th status call; a query for a
  height and an insert either answer or fail.
\<close>

record world =
  chainStatus :: "nat \<Rightarrow> error + chain_status"
  queryTransactionsByHeight :: "int \<Rightarrow> error + block \<times> tx list"
  queryBlocksAndTxsByBloom :: "int \<Rightarrow> listener list \<Rightarrow> error + (block \<times> tx list) option"
  isDBBaseOperation :: bool
  dbInit :: "error option"
  dbInsert :: "fetch_result \<Rightarrow> error option"

record scanner =
  config :: config
  currentPhase :: phase
  currentQueries :: int
  lastBestHeight :: "int option"
  lastLoopResult :: all_result
  loopTimes :: nat
  statusReads :: nat
  trace :: "event list"

text \<open>
  A computation either does not return (\<open>None\<close>: a loop that never ends),
  or returns the new scanner state with a value or a raised error.
\<close>

type_synonym 'a io = "((error + 'a) \<times> scanner) option"

definition andThen :: "'a io \<Rightarrow> ('a \<Rightarrow> scanner \<Rightarrow> 'b io) \<Rightarrow> 'b io" where
  "andThen m f =
     (case m of
        None \<Rightarrow> None
      | Some (Inl e, s) \<Rightarrow> Some (Inl e, s)
      | Some (Inr x, s) \<Rightarrow> f x s)"

section \<open>JavaScript primitives used by the scanner\<close>

text \<open>\<open>xs.slice(a, b)\<close>: negative offsets count from the end, everything is clamped.\<close>

definition js_slice :: "'a list \<Rightarrow> int \<Rightarrow> int \<Rightarrow> 'a list" where
  "js_slice xs a b =
     (let n = int (length xs);
          k = (if a < 0 then max (n + a) 0 else min a n);
          e = (if b < 0 then max (n + b) 0 else min b n)
      in take (nat (e - k)) (drop (nat k) xs))"

text \<open>\<open>xs.slice(a)\<close>.\<close>

definition js_slice_from :: "'a list \<Rightarrow> int \<Rightarrow> 'a list" where
  "js_slice_from xs a = js_slice xs a (int (length xs))"

text \<open>\<open>xs[i]\<close> on an array of transaction lists: \<open>undefined\<close> out of range.\<close>

definition js_nth :: "txs_slot list \<Rightarrow> nat \<Rightarrow> txs_slot" where
  "js_nth xs i = (if i < length xs then xs ! i else None)"

text \<open>
  \<open>new Array(n).fill(1).map((_, index) => f(index))\<close>: the indices \<open>0 .. n-1\<close>;
  a negative or too large length raises RangeError.
\<close>

definition newArrayIndices :: "int \<Rightarrow> error + int list" where
  "newArrayIndices n =
     (if n < 0 \<or> n > 4294967295 then Inl RangeError
      else Inr (map int [0..<nat n]))"

text \<open>A number read where \<open>null\<close> is possible: \<open>null\<close> converts to 0 in \<open><=\<close>, \<open>-\<close>, \<open>Math.max\<close>.\<close>

definition toNumber :: "int option \<Rightarrow> int" where
  "toNumber v = (case v of None \<Rightarrow> 0 | Some n \<Rightarrow> n)"

text \<open>Truthiness of a number-or-null: \<open>null\<close> and 0 are falsy.\<close>

definition truthy :: "int option \<Rightarrow> bool" where
  "truthy v = (case v of None \<Rightarrow> False | Some n \<Rightarrow> n \<noteq> 0)"

text \<open>\<open>Promise.all\<close>: all answers in order, or the first failure in list order.\<close>

fun promiseAll :: "(error + 'a) list \<Rightarrow> error + 'a list" where
  "promiseAll [] = Inr []"
| "promiseAll (Inl e # rs) = Inl e"
| "promiseAll (Inr x # rs) =
     (case promiseAll rs of Inl e \<Rightarrow> Inl e | Inr xs \<Rightarrow> Inr (x # xs))"

subsection \<open>Numbers: IEEE 754 binary64\<close>

text \<open>
  A JavaScript number is a finite double, an infinity or \<open>NaN\<close>. A finite double is
  kept as the rational it denotes. The sign of a zero is not kept: the expressions
  modelled here multiply, divide by the literal 1000, take \<open>Math.ceil\<close> and compare with
  \<open><=\<close>, and none of these tells \<open>-0\<close> from \<open>0\<close>.
\<close>

datatype number = Finite rat | PosInfinity | NegInfinity | NaN

text \<open>The number of binary digits of a natural number.\<close>

function bitLength :: "nat \<Rightarrow> nat" where
  "bitLength n = (if n = 0 then 0 else Suc (bitLength (n div 2)))"
  by pat_completeness auto
termination
  by (relation "measure (\<lambda>n. n)") auto

declare bitLength.simps [simp del]

text \<open>\<open>floorLog2 x\<close> is the integer \<open>e\<close> with \<open>2^e \<le> x < 2^(e+1)\<close>, for \<open>x > 0\<close>.\<close>

definition floorLog2 :: "rat \<Rightarrow> int" where
  "floorLog2 x =
     (if 1 \<le> x then int (bitLength (nat \<lfloor>x\<rfloor>)) - 1
      else - int (bitLength (nat (\<lceil>1 / x\<rceil> - 1))))"

definition pow2 :: "int \<Rightarrow> rat" where
  "pow2 k = (if 0 \<le> k then 2 ^ nat k else 1 / 2 ^ nat (- k))"

text \<open>The nearest integer, a tie going to the even one.\<close>

definition roundHalfEven :: "rat \<Rightarrow> int" where
  "roundHalfEven y =
     (let f = \<lfloor>y\<rfloor>; r = y - of_int f
      in if r < 1 / 2 then f
         else if 1 / 2 < r then f + 1
         else if even f then f else f + 1)"

text \<open>
  Rounding of an exact value to binary64, round-to-nearest, ties-to-even: the doubles
  around \<open>x\<close> are the multiples of \<open>2^k\<close>, where \<open>k\<close> leaves 53 significant bits and
  is at least \<open>-1074\<close> (the subnormal range); a result of magnitude \<open>2^1024\<close> overflows to
  an infinity. This is also the value of a decimal literal.
\<close>

definition round64 :: "rat \<Rightarrow> number" where
  "round64 x =
     (if x = 0 then Finite 0
      else let k = max (- 1074) (floorLog2 \<bar>x\<bar> - 52);
               r = of_int (roundHalfEven (x / pow2 k)) * pow2 k
           in if 2 ^ 1024 \<le> r then PosInfinity
              else if r \<le> - (2 ^ 1024) then NegInfinity
              else Finite r)"

definition signum :: "number \<Rightarrow> int" where
  "signum a =
     (case a of
        Finite x \<Rightarrow> (if x < 0 then - 1 else if x = 0 then 0 else 1)
      | PosInfinity \<Rightarrow> 1
      | NegInfinity \<Rightarrow> - 1
      | NaN \<Rightarrow> 0)"

text \<open>\<open>a * b\<close>: the rounded product; an infinity times zero is \<open>NaN\<close>.\<close>

fun fmul :: "number \<Rightarrow> number \<Rightarrow> number" where
  "fmul NaN b = NaN"
| "fmul a NaN = NaN"
| "fmul (Finite x) (Finite y) = round64 (x * y)"
| "fmul a b =
     (if signum a * signum b = 0 then NaN
      else if 0 < signum a * signum b then PosInfinity
      else NegInfinity)"

text \<open>\<open>a / 1000\<close>: the rounded quotient.\<close>

definition div1000 :: "number \<Rightarrow> number" where
  "div1000 a =
     (case a of
        Finite x \<Rightarrow> round64 (x / 1000)
      | PosInfinity \<Rightarrow> PosInfinity
      | NegInfinity \<Rightarrow> NegInfinity
      | NaN \<Rightarrow> NaN)"

text \<open>\<open>Math.ceil(a)\<close>; the ceiling of a finite double is a double.\<close>

definition mathCeil :: "number \<Rightarrow> number" where
  "mathCeil a =
     (case a of
        Finite x \<Rightarrow> Finite (of_int \<lceil>x\<rceil>)
      | PosInfinity \<Rightarrow> PosInfinity
      | NegInfinity \<Rightarrow> NegInfinity
      | NaN \<Rightarrow> NaN)"

text \<open>\<open>d <= a\<close> for an integer \<open>d\<close>: false when \<open>a\<close> is \<open>NaN\<close>.\<close>

definition lessEq :: "int \<Rightarrow> number \<Rightarrow> bool" where
  "lessEq d a =
     (case a of
        Finite x \<Rightarrow> of_int d \<le> x
      | PosInfinity \<Rightarrow> True
      | NegInfinity \<Rightarrow> False
      | NaN \<Rightarrow> False)"

section \<open>mergeResult\<close>

definition retained :: "int \<Rightarrow> int option \<Rightarrow> block \<Rightarrow> bool" where
  "retained LIB lastBest b \<longleftrightarrow> Height b > LIB \<and> Height b \<le> toNumber lastBest"

text \<open>
  The \<open>forEach\<close> over \<open>lastLoopResult.blocks\<close> pushes, for every index whose block is
  retained, the block and \<open>lastLoopResult.txs[index]\<close>.
\<close>

definition retainedIndices :: "int \<Rightarrow> int option \<Rightarrow> block list \<Rightarrow> nat list" where
  "retainedIndices LIB lastBest bs =
     filter (\<lambda>index. retained LIB lastBest (bs ! index)) [0..<length bs]"

definition mergeResult ::
  "all_result \<Rightarrow> all_result \<Rightarrow> nat \<Rightarrow> nat \<Rightarrow> int \<Rightarrow> int option \<Rightarrow> all_result" where
  "mergeResult lastLoop res preHeightsLength afterHeightsLength LIB lastBest =
     (if length (blocks lastLoop) = 0 then res
      else
        let preResultBlocks = js_slice (blocks res) 0 (int preHeightsLength);
            afterResultBlocks = js_slice_from (blocks res) (int preHeightsLength);
            preResultTxs = js_slice (txs res) 0 (int preHeightsLength);
            afterResultTxs = js_slice_from (txs res) (int preHeightsLength);
            kept = retainedIndices LIB lastBest (blocks lastLoop);
            lastResultBlocks = map (\<lambda>index. blocks lastLoop ! index) kept;
            lastResultTxs = map (\<lambda>index. js_nth (txs lastLoop) index) kept
        in \<lparr> blocks = preResultBlocks @ lastResultBlocks @ afterResultBlocks,
             txs = preResultTxs @ lastResultTxs @ afterResultTxs,
             rtype = rtype res,
             LIBHeight = None,
             bestHeight = None \<rparr>)"

section \<open>Configuration: defaultOptions, makeConfig, the constructor\<close>

definition defaultOptions :: config where
  "defaultOptions =
     \<lparr> interval = 4000,
       txResultsPageSize = 100,
       concurrentQueryLimit = 40,
       startHeight = 1,
       missingHeightList = [],
       scanMode = ''all'',
       listeners = [],
       maxInsert = 200,
       unconfirmedBlockBuffer = 60,
       minedSpeed = 2,
       loopCoef = 6 / 10 \<rparr>"

definition orElse :: "'a option \<Rightarrow> 'a \<Rightarrow> 'a" where
  "orElse v d = (case v of None \<Rightarrow> d | Some x \<Rightarrow> x)"

text \<open>\<open>{...base, ...options}\<close>: a key of \<open>options\<close> wins where it is present.\<close>

definition spread :: "config \<Rightarrow> options \<Rightarrow> config" where
  "spread base opts =
     \<lparr> interval = orElse (o_interval opts) (interval base),
       txResultsPageSize = orElse (o_txResultsPageSize opts) (txResultsPageSize base),
       concurrentQueryLimit = orElse (o_concurrentQueryLimit opts) (concurrentQueryLimit base),
       startHeight = orElse (o_startHeight opts) (startHeight base),
       missingHeightList = orElse (o_missingHeightList opts) (missingHeightList base),
       scanMode = orElse (o_scanMode opts) (scanMode base),
       listeners = orElse (o_listeners opts) (listeners base),
       maxInsert = orElse (o_maxInsert opts) (maxInsert base),
       unconfirmedBlockBuffer = orElse (o_unconfirmedBlockBuffer opts) (unconfirmedBlockBuffer base),
       minedSpeed = orElse (o_minedSpeed opts) (minedSpeed base),
       loopCoef = orElse (o_loopCoef opts) (loopCoef base) \<rparr>"

definition emptyLoopResult :: all_result where
  "emptyLoopResult =
     \<lparr> blocks = [], txs = [], rtype = None, LIBHeight = None, bestHeight = None \<rparr>"

text \<open>
  \<open>makeConfig\<close> assigns \<open>currentPhase\<close> and \<open>config\<close> before its checks, and the cursor
  fields after them. \<open>config s\<close> stands for \<open>{...defaultOptions, ...this.config}\<close>:
  it is \<open>defaultOptions\<close> in the constructor, where \<open>this.config\<close> is \<open>{}\<close>.
\<close>

definition makeConfig :: "world \<Rightarrow> options \<Rightarrow> scanner \<Rightarrow> (error + unit) \<times> scanner" where
  "makeConfig w opts s =
     (let s1 = s\<lparr> currentPhase := INIT, config := spread (config s) opts \<rparr>
      in if scanMode (config s1) = ''listener''
            \<and> length (remdups (map tag (listeners (config s1)))) < length (listeners (config s1))
         then (Inl DuplicatedListenerNames, s1)
         else if \<not> isDBBaseOperation w then (Inl NotDBBaseOperation, s1)
         else (Inr (),
               s1\<lparr> currentQueries := startHeight (config s1),
                    lastBestHeight := None,
                    lastLoopResult := emptyLoopResult,
                    loopTimes := 0 \<rparr>))"

text \<open>The object before the constructor body runs; every field is assigned on success.\<close>

definition blankScanner :: scanner where
  "blankScanner =
     \<lparr> config = defaultOptions, currentPhase = INIT, currentQueries = 0,
       lastBestHeight = None, lastLoopResult = emptyLoopResult, loopTimes = 0,
       statusReads = 0, trace = [] \<rparr>"

definition newScanner :: "world \<Rightarrow> options \<Rightarrow> error + scanner" where
  "newScanner w opts =
     (case makeConfig w opts blankScanner of
        (Inl e, s) \<Rightarrow> Inl e
      | (Inr u, s) \<Rightarrow> Inr s)"

definition scanPhase :: "scanner \<Rightarrow> phase" where
  "scanPhase s = currentPhase s"

section \<open>Collaborator calls\<close>

definition getHeight :: "world \<Rightarrow> scanner \<Rightarrow> (int \<times> int) io" where
  "getHeight w s =
     (let status = chainStatus w (statusReads s);
          s1 = s\<lparr> statusReads := Suc (statusReads s), trace := trace s @ [ChainStatus status] \<rparr>
      in case status of
           Inl e \<Rightarrow> Some (Inl e, s1)
         | Inr st \<Rightarrow> Some (Inr (BestChainHeight st, LastIrreversibleBlockHeight st), s1))"

definition dbInitCall :: "world \<Rightarrow> scanner \<Rightarrow> unit io" where
  "dbInitCall w s =
     (let s1 = s\<lparr> trace := trace s @ [Init] \<rparr>
      in case dbInit w of None \<Rightarrow> Some (Inr (), s1) | Some e \<Rightarrow> Some (Inl e, s1))"

definition dbInsertCall :: "world \<Rightarrow> fetch_result \<Rightarrow> scanner \<Rightarrow> unit io" where
  "dbInsertCall w r s =
     (let s1 = s\<lparr> trace := trace s @ [Insert r] \<rparr>
      in case dbInsert w r of None \<Rightarrow> Some (Inr (), s1) | Some e \<Rightarrow> Some (Inl e, s1))"

section \<open>The batch fetchers\<close>

text \<open>
  The \<open>for\<close> loops run while their condition holds; the first argument bounds the
  number of iterations the model follows, and \<open>None\<close> is a loop that has not ended.
  One \<open>Queries\<close> event is one \<open>Promise.all\<close> over a chunk.
\<close>

fun queryAllLoop ::
  "nat \<Rightarrow> world \<Rightarrow> int list \<Rightarrow> int \<Rightarrow> (block \<times> tx list) list list \<Rightarrow> scanner
    \<Rightarrow> (block \<times> tx list) list list io" where
  "queryAllLoop 0 w heights i acc s = None"
| "queryAllLoop (Suc n) w heights i acc s =
     (if i < int (length heights) then
        (let heightsLimited = js_slice heights i (i + concurrentQueryLimit (config s));
             s1 = s\<lparr> trace := trace s @ [Queries heightsLimited] \<rparr>
         in case promiseAll (map (queryTransactionsByHeight w) heightsLimited) of
              Inl e \<Rightarrow> Some (Inl e, s1)
            | Inr answers \<Rightarrow>
                queryAllLoop n w heights (i + concurrentQueryLimit (config s1)) (acc @ [answers]) s1)
      else Some (Inr acc, s))"

definition queryAllBlocksAndTxs :: "nat \<Rightarrow> world \<Rightarrow> int list \<Rightarrow> phase \<Rightarrow> scanner \<Rightarrow> all_result io" where
  "queryAllBlocksAndTxs fuel w heights type s =
     andThen (queryAllLoop fuel w heights 0 [] s)
       (\<lambda>chunks s1.
          let flat = concat chunks
          in Some (Inr \<lparr> blocks = map fst flat,
                         txs = map (\<lambda>v. Some (snd v)) flat,
                         rtype = Some type,
                         LIBHeight = None,
                         bestHeight = None \<rparr>, s1))"

fun bloomLoop ::
  "nat \<Rightarrow> world \<Rightarrow> int list \<Rightarrow> int \<Rightarrow> (block \<times> tx list) option list \<Rightarrow> scanner
    \<Rightarrow> (block \<times> tx list) option list io" where
  "bloomLoop 0 w heights i acc s = None"
| "bloomLoop (Suc n) w heights i acc s =
     (if i < int (length heights) then
        (let heightsLimited = js_slice heights i (i + concurrentQueryLimit (config s));
             s1 = s\<lparr> trace := trace s @ [Queries heightsLimited] \<rparr>
         in case promiseAll
                   (map (\<lambda>v. queryBlocksAndTxsByBloom w v (listeners (config s))) heightsLimited) of
              Inl e \<Rightarrow> Some (Inl e, s1)
            | Inr blocksAndTxs \<Rightarrow>
                bloomLoop n w heights (i + concurrentQueryLimit (config s1)) (acc @ blocksAndTxs) s1)
      else Some (Inr acc, s))"

text \<open>\<open>acc[tag].blocks.push(...)\<close>: a tag without bucket reads \<open>undefined.blocks\<close>, a TypeError.\<close>

text \<open>\<open>{...block, transactionList: transactions.filter(tx => tx.scanTags.includes(tag))}\<close>.\<close>

definition annotate :: "block \<Rightarrow> string \<Rightarrow> tx list \<Rightarrow> listed_block" where
  "annotate b t transactions =
     \<lparr> scanTags = scanTags b, Height = Height b, blockHash = blockHash b,
       transactionList = filter (\<lambda>x. t \<in> set (scanTags x)) transactions \<rparr>"

definition pushBlock :: "block \<Rightarrow> tx list \<Rightarrow> string \<Rightarrow> buckets \<Rightarrow> error + buckets" where
  "pushBlock b transactions t acc =
     (case map_of acc t of
        None \<Rightarrow> Inl TypeError
      | Some bs \<Rightarrow> Inr (AList.update t (bs @ [annotate b t transactions]) acc))"

fun forTags :: "block \<Rightarrow> tx list \<Rightarrow> string list \<Rightarrow> buckets \<Rightarrow> error + buckets" where
  "forTags b transactions [] acc = Inr acc"
| "forTags b transactions (t # ts) acc =
     (case pushBlock b transactions t acc of
        Inl e \<Rightarrow> Inl e
      | Inr acc1 \<Rightarrow> forTags b transactions ts acc1)"

fun reduceResults :: "(block \<times> tx list) list \<Rightarrow> buckets \<Rightarrow> error + buckets" where
  "reduceResults [] acc = Inr acc"
| "reduceResults (v # vs) acc =
     (case forTags (fst v) (snd v) (scanTags (fst v)) acc of
        Inl e \<Rightarrow> Inl e
      | Inr acc1 \<Rightarrow> reduceResults vs acc1)"

definition tagsObj :: "listener list \<Rightarrow> buckets" where
  "tagsObj ls = foldl (\<lambda>acc t. AList.update t [] acc) [] (map tag ls)"

definition queryBlockAndTxsWithBloom ::
  "nat \<Rightarrow> world \<Rightarrow> int list \<Rightarrow> phase \<Rightarrow> scanner \<Rightarrow> listener_result io" where
  "queryBlockAndTxsWithBloom fuel w heights type s =
     andThen (bloomLoop fuel w heights 0 [] s)
       (\<lambda>fetched s1.
          case reduceResults (List.map_filter (\<lambda>v. v) fetched) (tagsObj (listeners (config s1))) of
            Inl e \<Rightarrow> Some (Inl e, s1)
          | Inr r \<Rightarrow>
              Some (Inr \<lparr> largestHeight =
                             (if length heights > 0 then heights ! (length heights - 1)
                              else startHeight (config s1) - 1),
                           results = r,
                           ltype = Some type,
                           lLIBHeight = None,
                           lbestHeight = None \<rparr>, s1))"

definition queryBlockAndTxs :: "nat \<Rightarrow> world \<Rightarrow> int list \<Rightarrow> phase \<Rightarrow> scanner \<Rightarrow> fetch_result io" where
  "queryBlockAndTxs fuel w heights type s =
     (if scanMode (config s) = ''all'' then
        andThen (queryAllBlocksAndTxs fuel w heights type s) (\<lambda>r s1. Some (Inr (AllResult r), s1))
      else if scanMode (config s) = ''listener'' then
        andThen (queryBlockAndTxsWithBloom fuel w heights type s)
          (\<lambda>r s1. Some (Inr (ListenerResult r), s1))
      else Some (Inl InvalidScanMode, s))"

text \<open>\<open>r.LIBHeight = lib; r.bestHeight = best\<close> on a result of either mode.\<close>

definition tagResult :: "int \<Rightarrow> int \<Rightarrow> fetch_result \<Rightarrow> fetch_result" where
  "tagResult lib best r =
     (case r of
        AllResult a \<Rightarrow> AllResult (a\<lparr> LIBHeight := Some lib, bestHeight := Some best \<rparr>)
      | ListenerResult l \<Rightarrow> ListenerResult (l\<lparr> lLIBHeight := Some lib, lbestHeight := Some best \<rparr>))"

section \<open>queryMissingHeight and queryGapHeight\<close>

fun missingLoop :: "nat \<Rightarrow> nat \<Rightarrow> world \<Rightarrow> int \<Rightarrow> scanner \<Rightarrow> unit io" where
  "missingLoop 0 fuel w i s = None"
| "missingLoop (Suc n) fuel w i s =
     (if i \<le> int (length (missingHeightList (config s))) then
        andThen
          (queryBlockAndTxs fuel w
             (js_slice (missingHeightList (config s)) i (i + maxInsert (config s))) MISSING s)
          (\<lambda>maxInsertResults s1.
             andThen (dbInsertCall w maxInsertResults s1)
               (\<lambda>u s2. missingLoop n fuel w (i + maxInsert (config s2)) s2))
      else Some (Inr (), s))"

definition queryMissingHeight :: "nat \<Rightarrow> world \<Rightarrow> scanner \<Rightarrow> unit io" where
  "queryMissingHeight fuel w s = missingLoop fuel fuel w 0 s"

text \<open>
  The loop of \<open>queryGapHeight\<close>; \<open>bestHeight\<close> is the constant bound at entry,
  \<open>currentHeight\<close> and \<open>leftHeights\<close> are the loop's variables. It returns the last
  \<open>currentHeight\<close>.
\<close>

fun gapLoop :: "nat \<Rightarrow> nat \<Rightarrow> world \<Rightarrow> int \<Rightarrow> int \<Rightarrow> int \<Rightarrow> int \<Rightarrow> scanner \<Rightarrow> int io" where
  "gapLoop 0 fuel w bestH i currentHeight leftHeights s = None"
| "gapLoop (Suc n) fuel w bestH i currentHeight leftHeights s =
     (if i \<le> leftHeights then
        (case newArrayIndices (maxInsert (config s)) of
           Inl e \<Rightarrow> Some (Inl e, s)
         | Inr indices \<Rightarrow>
             (let maxInsertHeights =
                    filter (\<lambda>v. v \<le> currentHeight)
                      (map (\<lambda>index. startHeight (config s) + i + index) indices)
              in andThen (queryBlockAndTxs fuel w maxInsertHeights GAP s)
                   (\<lambda>maxInsertResults s1.
                      andThen (dbInsertCall w (tagResult currentHeight bestH maxInsertResults) s1)
                        (\<lambda>u s2.
                           andThen (getHeight w s2)
                             (\<lambda>hs s3.
                                gapLoop n fuel w bestH (i + maxInsert (config s3)) (snd hs)
                                  (snd hs - startHeight (config s3)) s3)))))
      else Some (Inr currentHeight, s))"

definition queryGapHeight :: "nat \<Rightarrow> world \<Rightarrow> scanner \<Rightarrow> unit io" where
  "queryGapHeight fuel w s =
     andThen (getHeight w s)
       (\<lambda>hs s1.
          let bestH = fst hs; currentHeight = snd hs
          in if currentHeight \<le> startHeight (config s1) then Some (Inr (), s1)
             else andThen
                    (gapLoop fuel fuel w bestH 0 currentHeight
                       (currentHeight - startHeight (config s1)) s1)
                    (\<lambda>lastHeight s2.
                       Some (Inr (), s2\<lparr> currentQueries := lastHeight,
                                         lastBestHeight := Some bestH \<rparr>)))"

section \<open>The polling loop\<close>

text \<open>
  \<open>Math.ceil(this.config.interval * this.config.minedSpeed * this.config.loopCoef / 1000)\<close>,
  evaluated from left to right on doubles.
\<close>

definition loopThreshold :: "config \<Rightarrow> number" where
  "loopThreshold c =
     mathCeil
       (div1000
          (fmul (fmul (round64 (interval c)) (round64 (minedSpeed c))) (round64 (loopCoef c))))"

text \<open>The condition of the \<open>jump this loop\<close> branch.\<close>

definition jumpThisLoop :: "scanner \<Rightarrow> int \<Rightarrow> bool" where
  "jumpThisLoop s currentHeight \<longleftrightarrow>
     truthy (lastBestHeight s)
     \<and> lessEq (currentHeight - toNumber (lastBestHeight s)) (loopThreshold (config s))"

text \<open>
  The heights a tick plans: \<open>currentQueries + 1 .. currentHeight\<close>, none when the
  difference is negative (\<open>x || 0\<close> is \<open>x\<close> on integers).
\<close>

definition loopHeights :: "scanner \<Rightarrow> int \<Rightarrow> error + int list" where
  "loopHeights s currentHeight =
     (let heightsLength = currentHeight - currentQueries s
      in case newArrayIndices (if heightsLength < 0 then 0 else heightsLength) of
           Inl e \<Rightarrow> Inl e
         | Inr indices \<Rightarrow> Inr (map (\<lambda>index. currentQueries s + index + 1) indices))"

text \<open>What a tick does once it has decided not to jump: plan, fetch, merge, insert.\<close>

definition loopBody :: "nat \<Rightarrow> world \<Rightarrow> int \<Rightarrow> int \<Rightarrow> scanner \<Rightarrow> unit io" where
  "loopBody fuel w currentHeight LIB s =
     (case loopHeights s currentHeight of
        Inl e \<Rightarrow> Some (Inl e, s)
      | Inr heights \<Rightarrow>
          if scanMode (config s) = ''all'' then
            (let LIBHeights = filter (\<lambda>h. h \<le> LIB) heights;
                 bestHeights = filter (\<lambda>h. h > max (toNumber (lastBestHeight s)) LIB) heights
             in andThen (queryBlockAndTxs fuel w (LIBHeights @ bestHeights) LOOP s)
                  (\<lambda>r s1.
                     case r of
                       ListenerResult l \<Rightarrow> Some (Inl TypeError, s1)
                     | AllResult fresh \<Rightarrow>
                         (let merged =
                                mergeResult (lastLoopResult s1) fresh (length LIBHeights)
                                  (length bestHeights) LIB (lastBestHeight s1);
                              loopHeightsResult =
                                merged\<lparr> LIBHeight := Some LIB, bestHeight := Some currentHeight \<rparr>
                          in andThen (dbInsertCall w (AllResult loopHeightsResult) s1)
                               (\<lambda>u s2.
                                  Some (Inr (),
                                        s2\<lparr> lastLoopResult := loopHeightsResult,
                                             currentQueries := LIB,
                                             lastBestHeight := Some currentHeight \<rparr>)))))
          else if scanMode (config s) = ''listener'' then
            andThen (queryBlockAndTxs fuel w heights LOOP s)
              (\<lambda>r s1.
                 andThen (dbInsertCall w (tagResult LIB currentHeight r) s1)
                   (\<lambda>u s2.
                      Some (Inr (),
                            s2\<lparr> currentQueries := LIB, lastBestHeight := Some currentHeight \<rparr>)))
          else Some (Inl InvalidScanMode, s))"

text \<open>The callback that \<open>queryInLoop\<close> installs: the body of one scheduler tick.\<close>

definition loopCallback :: "nat \<Rightarrow> world \<Rightarrow> scanner \<Rightarrow> unit io" where
  "loopCallback fuel w s0 =
     andThen (getHeight w (s0\<lparr> loopTimes := loopTimes s0 + 1 \<rparr>))
       (\<lambda>hs s.
          if jumpThisLoop s (fst hs) then Some (Inr (), s)
          else loopBody fuel w (fst hs) (snd hs) s)"

text \<open>
  \<open>queryInLoop\<close> installs the callback and starts the timer; it returns without
  waiting for any tick.
\<close>

definition queryInLoop :: "scanner \<Rightarrow> unit io" where
  "queryInLoop s = Some (Inr (), s\<lparr> trace := trace s @ [SetCallback, StartTimer] \<rparr>)"

section \<open>start and restart\<close>

definition startBody :: "nat \<Rightarrow> world \<Rightarrow> scanner \<Rightarrow> unit io" where
  "startBody fuel w s =
     andThen (dbInitCall w s)
       (\<lambda>u s1.
          andThen (queryMissingHeight fuel w (s1\<lparr> currentPhase := MISSING \<rparr>))
            (\<lambda>u s2.
               andThen (queryGapHeight fuel w (s2\<lparr> currentPhase := GAP \<rparr>))
                 (\<lambda>u s3. queryInLoop (s3\<lparr> currentPhase := LOOP \<rparr>))))"

text \<open>The \<open>catch\<close> of \<open>start\<close>: phase ERROR, \<open>endTimer\<close>, \<open>destroy\<close>, rethrow.\<close>

definition start :: "nat \<Rightarrow> world \<Rightarrow> scanner \<Rightarrow> unit io" where
  "start fuel w s =
     (case startBody fuel w s of
        None \<Rightarrow> None
      | Some (Inr u, s1) \<Rightarrow> Some (Inr u, s1)
      | Some (Inl e, s1) \<Rightarrow>
          Some (Inl e, s1\<lparr> currentPhase := ERROR, trace := trace s1 @ [EndTimer, Destroy] \<rparr>))"

text \<open>
  \<open>restart\<close> throws what \<open>makeConfig\<close> throws; it does not await \<open>start\<close>, whose
  outcome it therefore never returns.
\<close>

definition restart :: "nat \<Rightarrow> world \<Rightarrow> options \<Rightarrow> scanner \<Rightarrow> unit io" where
  "restart fuel w opts s =
     (case makeConfig w opts s of
        (Inl e, s1) \<Rightarrow> Some (Inl e, s1)
      | (Inr u, s1) \<Rightarrow>
          (case start fuel w s1 of
             None \<Rightarrow> None
           | Some (r, s2) \<Rightarrow> Some (Inr (), s2)))"

section \<open>Specification-side definitions\<close>

text \<open>
  The spec's chunking: consecutive groups of at most \<open>c\<close> elements, in order.
\<close>

function chunksOf :: "nat \<Rightarrow> 'a list \<Rightarrow> 'a list list" where
  "chunksOf c xs = (if c = 0 \<or> xs = [] then [] else take c xs # chunksOf c (drop c xs))"
  by pat_completeness auto
termination
  by (relation "measure (\<lambda>(c, xs). length xs)") auto

text \<open>
  The spec's batch fetch in ALL mode: the chunks one after another, each chunk one
  \<open>Promise.all\<close> over its heights, stopping at the first chunk with a failure.
\<close>

fun fetchChunks ::
  "world \<Rightarrow> int list list \<Rightarrow> (block \<times> tx list) list list \<Rightarrow> scanner
    \<Rightarrow> (block \<times> tx list) list list io" where
  "fetchChunks w [] acc s = Some (Inr acc, s)"
| "fetchChunks w (ch # chs) acc s =
     (let s1 = s\<lparr> trace := trace s @ [Queries ch] \<rparr>
      in case promiseAll (map (queryTransactionsByHeight w) ch) of
           Inl e \<Rightarrow> Some (Inl e, s1)
         | Inr answers \<Rightarrow> fetchChunks w chs (acc @ [answers]) s1)"

text \<open>
  The spec's bucket of a listener tag: every fetched block whose tags include the tag,
  annotated with the transactions that carry the tag (once per occurrence of the tag in
  the block's tag list).
\<close>

definition bucketOf :: "string \<Rightarrow> (block \<times> tx list) list \<Rightarrow> listed_block list" where
  "bucketOf t vs =
     concat (map (\<lambda>v. replicate (count_list (scanTags (fst v)) t) (annotate (fst v) t (snd v))) vs)"

text \<open>
  The spec's backfill of a list of chunks: for each chunk in order, fetch it, then
  insert what was fetched.
\<close>

fun insertChunks :: "nat \<Rightarrow> world \<Rightarrow> phase \<Rightarrow> int list list \<Rightarrow> scanner \<Rightarrow> unit io" where
  "insertChunks fuel w ty [] s = Some (Inr (), s)"
| "insertChunks fuel w ty (ch # chs) s =
     andThen (queryBlockAndTxs fuel w ch ty s)
       (\<lambda>r s1. andThen (dbInsertCall w r s1) (\<lambda>u s2. insertChunks fuel w ty chs s2))"

text \<open>
  The slices \<open>[0, m), [m, 2m), ...\<close> of a list for the offsets up to and including its
  length: the last slice is the remainder, empty when \<open>m\<close> divides the length.
\<close>

function tailChunks :: "nat \<Rightarrow> 'a list \<Rightarrow> 'a list list" where
  "tailChunks m xs =
     (if m = 0 then []
      else if length xs < m then [xs]
      else take m xs # tailChunks m (drop m xs))"
  by pat_completeness auto
termination
  by (relation "measure (\<lambda>(m, xs). length xs)") auto

section \<open>Reading the trace\<close>

definition isInsert :: "event \<Rightarrow> bool" where
  "isInsert e = (case e of Insert r \<Rightarrow> True | _ \<Rightarrow> False)"

text \<open>The heights queried, in the order of the queries.\<close>

definition queriedHeights :: "event list \<Rightarrow> int list" where
  "queriedHeights tr = concat (map (\<lambda>e. case e of Queries hs \<Rightarrow> hs | _ \<Rightarrow> []) tr)"

text \<open>The heights of the blocks handed to the sink in ALL mode, in the order of the inserts.\<close>

definition insertedHeights :: "event list \<Rightarrow> int list" where
  "insertedHeights tr =
     concat (map (\<lambda>e. case e of Insert (AllResult r) \<Rightarrow> map Height (blocks r) | _ \<Rightarrow> []) tr)"

definition resultLIB :: "fetch_result \<Rightarrow> int option" where
  "resultLIB r = (case r of AllResult a \<Rightarrow> LIBHeight a | ListenerResult l \<Rightarrow> lLIBHeight l)"

definition resultBest :: "fetch_result \<Rightarrow> int option" where
  "resultBest r = (case r of AllResult a \<Rightarrow> bestHeight a | ListenerResult l \<Rightarrow> lbestHeight l)"

text \<open>
  \<open>chunksTagged best cur tr\<close>: every result inserted in \<open>tr\<close> carries best height \<open>best\<close>
  and the LIB height of the latest successful status read before it (\<open>cur\<close> at the start).
\<close>

fun chunksTagged :: "int \<Rightarrow> int option \<Rightarrow> event list \<Rightarrow> bool" where
  "chunksTagged best cur [] = True"
| "chunksTagged best cur (ChainStatus (Inr st) # es) =
     chunksTagged best (Some (LastIrreversibleBlockHeight st)) es"
| "chunksTagged best cur (Insert r # es) =
     (resultLIB r = cur \<and> resultBest r = Some best \<and> chunksTagged best cur es)"
| "chunksTagged best cur (e # es) = chunksTagged best cur es"

section \<open>Concrete scenarios\<close>

definition blockAt :: "int \<Rightarrow> block" where
  "blockAt h = \<lparr> scanTags = [], Height = h, blockHash = nat h \<rparr>"

definition txsAt :: "int \<Rightarrow> txs_slot" where
  "txsAt h = Some [\<lparr> scanTags = [], txId = nat h \<rparr>]"

definition resultAt :: "int list \<Rightarrow> all_result" where
  "resultAt hs = \<lparr> blocks = map blockAt hs, txs = map txsAt hs, rtype = Some LOOP,
                   LIBHeight = None, bestHeight = None \<rparr>"

definition noOptions :: options where
  "noOptions =
     \<lparr> o_interval = None, o_txResultsPageSize = None, o_concurrentQueryLimit = None,
       o_startHeight = None, o_missingHeightList = None, o_scanMode = None,
       o_listeners = None, o_maxInsert = None, o_unconfirmedBlockBuffer = None,
       o_minedSpeed = None, o_loopCoef = None \<rparr>"

text \<open>Two listeners with the same tag.\<close>

definition twinListeners :: "listener list" where
  "twinListeners = [\<lparr> tag = ''A'', bloom = 0 \<rparr>, \<lparr> tag = ''A'', bloom = 1 \<rparr>]"

text \<open>
  A node that answers every status call with the given pairs (best height, LIB height)
  in turn, then repeats the last one; it has a block with one transaction at every
  height, and the sink accepts everything.
\<close>

definition statusAt :: "(int \<times> int) list \<Rightarrow> nat \<Rightarrow> error + chain_status" where
  "statusAt answers k =
     (let a = (if k < length answers then answers ! k else last answers)
      in Inr \<lparr> BestChainHeight = fst a, LastIrreversibleBlockHeight = snd a \<rparr>)"

definition calmWorld :: "(int \<times> int) list \<Rightarrow> world" where
  "calmWorld answers =
     \<lparr> chainStatus = statusAt answers,
       queryTransactionsByHeight = (\<lambda>h. Inr (blockAt h, [\<lparr> scanTags = [], txId = nat h \<rparr>])),
       queryBlocksAndTxsByBloom = (\<lambda>h ls. Inr None),
       isDBBaseOperation = True,
       dbInit = None,
       dbInsert = (\<lambda>r. None) \<rparr>"

text \<open>A scanner as \<open>makeConfig\<close> leaves it for a given configuration.\<close>

definition scannerWith :: "config \<Rightarrow> scanner" where
  "scannerWith c =
     \<lparr> config = c, currentPhase = INIT, currentQueries = startHeight c,
       lastBestHeight = None, lastLoopResult = emptyLoopResult, loopTimes = 0,
       statusReads = 0, trace = [] \<rparr>"

definition fetched :: "phase \<Rightarrow> int list \<Rightarrow> all_result" where
  "fetched ty hs = \<lparr> blocks = map blockAt hs, txs = map txsAt hs, rtype = Some ty,
                     LIBHeight = None, bestHeight = None \<rparr>"







definition missingConfig :: config where
  "missingConfig = defaultOptions\<lparr> missingHeightList := [10, 20, 30, 40], maxInsert := 2 \<rparr>"

text \<open>Gap backfill from height 1 in chunks of two heights.\<close>

definition gapConfig :: config where
  "gapConfig = defaultOptions\<lparr> maxInsert := 2 \<rparr>"

definition status :: "int \<Rightarrow> int \<Rightarrow> chain_status" where
  "status best lib = \<lparr> BestChainHeight = best, LastIrreversibleBlockHeight = lib \<rparr>"

definition taggedResult :: "phase \<Rightarrow> int list \<Rightarrow> int \<Rightarrow> int \<Rightarrow> fetch_result" where
  "taggedResult ty hs lib best =
     AllResult ((fetched ty hs)\<lparr> LIBHeight := Some lib, bestHeight := Some best \<rparr>)"

text \<open>
  The state after the gap phase when the node answers the three status calls with
  (best 10, LIB 3), (best 20, LIB 3), (best 30, LIB 3).
\<close>

definition staleEnd :: scanner where
  "staleEnd =
     (scannerWith gapConfig)
       \<lparr> currentQueries := 3, lastBestHeight := Some 10, statusReads := 3,
         trace := [ChainStatus (Inr (status 10 3)),
                   Queries [1, 2], Insert (taggedResult GAP [1, 2] 3 10),
                   ChainStatus (Inr (status 20 3)),
                   Queries [3], Insert (taggedResult GAP [3] 3 10),
                   ChainStatus (Inr (status 30 3))] \<rparr>"

text \<open>
  The state after the gap phase when the LIB height moves from 3 to 4 while the last,
  partial chunk is fetched: status answers (best 4, LIB 3), (best 4, LIB 3), (best 4, LIB 4).
\<close>

definition skipEnd :: scanner where
  "skipEnd =
     (scannerWith gapConfig)
       \<lparr> currentQueries := 4, lastBestHeight := Some 4, statusReads := 3,
         trace := [ChainStatus (Inr (status 4 3)),
                   Queries [1, 2], Insert (taggedResult GAP [1, 2] 3 4),
                   ChainStatus (Inr (status 4 3)),
                   Queries [3], Insert (taggedResult GAP [3] 3 4),
                   ChainStatus (Inr (status 4 4))] \<rparr>"

text \<open>A scanner in the polling loop with the cursor at \<open>q\<close> and last best height \<open>l\<close>.\<close>

definition cursorAt :: "int \<Rightarrow> int \<Rightarrow> scanner" where
  "cursorAt q l = (scannerWith defaultOptions)\<lparr> currentQueries := q, lastBestHeight := Some l \<rparr>"

text \<open>The same with interval 5000, minedSpeed 2.5 and loopCoef 0.56.\<close>

definition tunedAt :: "int \<Rightarrow> int \<Rightarrow> scanner" where
  "tunedAt q l =
     (scannerWith (defaultOptions\<lparr> interval := 5000, minedSpeed := 5 / 2, loopCoef := 56 / 100 \<rparr>))
       \<lparr> currentQueries := q, lastBestHeight := Some l \<rparr>"

text \<open>The state after a first tick on a node whose best and LIB heights are both 0.\<close>

definition zeroTick :: scanner where
  "zeroTick =
     (scannerWith defaultOptions)
       \<lparr> currentQueries := 0, lastBestHeight := Some 0,
         lastLoopResult := (fetched LOOP [])\<lparr> LIBHeight := Some 0, bestHeight := Some 0 \<rparr>,
         loopTimes := 1, statusReads := 1,
         trace := [ChainStatus (Inr (status 0 0)), Insert (taggedResult LOOP [] 0 0)] \<rparr>"

text \<open>What a run reports: its outcome, the cursor, the heights queried, the number of inserts.\<close>

definition report :: "unit io \<Rightarrow> ((error + unit) \<times> int \<times> int option \<times> int list \<times> nat) option" where
  "report m =
     map_option
       (\<lambda>p. (fst p, currentQueries (snd p), lastBestHeight (snd p),
             queriedHeights (trace (snd p)), length (filter isInsert (trace (snd p)))))
       m"

text \<open>A node whose status call answers once and fails afterwards.\<close>

definition failingTick :: world where
  "failingTick =
     (calmWorld [(1, 1)])
       \<lparr> chainStatus := (\<lambda>k. if k = 0 then Inr (status 1 1) else Inl (CollaboratorError 7)) \<rparr>"

text \<open>A sink that rejects every insert.\<close>

definition fullSink :: world where
  "fullSink = (calmWorld [(1, 1)])\<lparr> dbInsert := (\<lambda>r. Some (CollaboratorError 9)) \<rparr>"

text \<open>The state in which \<open>start\<close> returns on \<open>failingTick\<close>, and the state after the first tick.\<close>

definition loopStarted :: scanner where
  "loopStarted =
     (scannerWith defaultOptions)
       \<lparr> currentPhase := LOOP, statusReads := 1,
         trace := [Init, Insert (AllResult (fetched MISSING [])),
                   ChainStatus (Inr (status 1 1)), SetCallback, StartTimer] \<rparr>"

definition tickFailed :: scanner where
  "tickFailed =
     loopStarted
       \<lparr> loopTimes := 1, statusReads := 2,
         trace := [Init, Insert (AllResult (fetched MISSING [])),
                   ChainStatus (Inr (status 1 1)), SetCallback, StartTimer,
                   ChainStatus (Inl (CollaboratorError 7))] \<rparr>"

definition missingFailed :: scanner where
  "missingFailed =
     (scannerWith defaultOptions)
       \<lparr> currentPhase := ERROR,
         trace := [Init, Insert (AllResult (fetched MISSING [])), EndTimer, Destroy] \<rparr>"

section \<open>Properties of mergeResult\<close>

lemma js_slice_take: "js_slice xs 0 (int n) = take n xs"
  by (simp add: js_slice_def Let_def min_def)

lemma js_slice_from_drop: "js_slice_from xs (int n) = drop n xs"
  by (simp add: js_slice_from_def js_slice_def Let_def min_def)

lemma map_nth_filter_upt: "map (\<lambda>i. xs ! i) (filter (\<lambda>i. P (xs ! i)) [0..<length xs]) = filter P xs"
proof -
  have "filter P (map (\<lambda>i. xs ! i) [0..<length xs]) = filter P xs"
    by (simp add: map_nth)
  then show ?thesis by (simp add: filter_map comp_def)
qed

lemma retained_blocks: "map (\<lambda>index. bs ! index) (retainedIndices LIB lb bs) = filter (retained LIB lb) bs"
  unfolding retainedIndices_def by (rule map_nth_filter_upt)

lemma retained_zip:
  assumes "length ts = length bs"
  shows "zip (map (\<lambda>index. bs ! index) (retainedIndices LIB lb bs)) (map (js_nth ts) (retainedIndices LIB lb bs))
     = filter (\<lambda>p. retained LIB lb (fst p)) (zip bs ts)"
proof -
  let ?z = "zip bs ts"
  have len: "length ?z = length bs" using assms by simp
  have "map (\<lambda>i. ?z ! i) (filter (\<lambda>i. retained LIB lb (fst (?z ! i))) [0..<length ?z]) = filter (\<lambda>p. retained LIB lb (fst p)) ?z"
    by (rule map_nth_filter_upt)
  moreover have "filter (\<lambda>i. retained LIB lb (fst (?z ! i))) [0..<length ?z] = retainedIndices LIB lb bs"
    unfolding retainedIndices_def len using assms by (intro filter_cong) auto
  moreover have "map (\<lambda>i. ?z ! i) (retainedIndices LIB lb bs) = zip (map (\<lambda>index. bs ! index) (retainedIndices LIB lb bs)) (map (js_nth ts) (retainedIndices LIB lb bs))"
    unfolding retainedIndices_def using assms by (simp add: zip_map_map js_nth_def zip_same_conv_map comp_def)
  ultimately show ?thesis by simp
qed

lemma sorted_wrt_adjacent: "sorted_wrt (<) (hs :: int list) \<Longrightarrow> (\<forall>i. Suc i < length hs \<longrightarrow> hs ! i < hs ! Suc i) \<and> distinct hs"
  by (simp add: sorted_wrt_iff_nth_less strict_sorted_iff distinct_conv_nth) (metis nat_neq_iff order_less_irrefl)


lemma strictly_ascending_merge:
  assumes "sorted_wrt (<) (map Height pre)" "list_all (\<lambda>b. Height b \<le> LIB) pre"
    "sorted_wrt (<) (map Height prev)"
    "sorted_wrt (<) (map Height post)" "list_all (\<lambda>b. Height b > max L LIB) post"
  shows "sorted_wrt (<) (map Height (pre @ filter (\<lambda>b. LIB < Height b \<and> Height b \<le> L) prev @ post))"
proof -
  have mid: "sorted_wrt (<) (map Height (filter (\<lambda>b. LIB < Height b \<and> Height b \<le> L) prev))"
    using assms(3) by (simp add: sorted_wrt_map sorted_wrt_filter)
  show ?thesis
    using assms(1,2,4,5) mid
    by (fastforce simp: sorted_wrt_append list_all_iff)
qed

text \<open>
  Claim C1. When the retained result of the previous cycle has at least one block,
  \<open>mergeResult\<close> returns the first \<open>n\<close> fresh blocks, then the previous blocks whose
  height \<open>h\<close> satisfies \<open>LIB < h \<le> lastBestHeight\<close> in their original order, then the
  remaining fresh blocks. \<open>txs\<close> is assembled from the same index selections, so that
  block and transactions stay paired when the inputs are index-aligned. If the fresh
  prefix is strictly ascending with heights at most \<open>LIB\<close>, the previous result is
  strictly ascending, and the fresh suffix is strictly ascending with heights above
  \<open>max lastBestHeight LIB\<close>, then adjacent merged blocks have strictly increasing
  heights and no height occurs twice.
\<close>

theorem mergeResult_three_segments:
  assumes "length (blocks lastLoop) \<noteq> 0"
  shows
    "(let out = mergeResult lastLoop res n a LIB lastBest;
          keep = (\<lambda>b. LIB < Height b \<and> Height b \<le> toNumber lastBest);
          kept = filter (\<lambda>i. keep (blocks lastLoop ! i)) [0..<length (blocks lastLoop)]
      in blocks out = take n (blocks res) @ filter keep (blocks lastLoop) @ drop n (blocks res)
       \<and> blocks out = take n (blocks res) @ map (\<lambda>i. blocks lastLoop ! i) kept @ drop n (blocks res)
       \<and> txs out = take n (txs res) @ map (\<lambda>i. js_nth (txs lastLoop) i) kept @ drop n (txs res)
       \<and> (length (txs lastLoop) = length (blocks lastLoop) \<and> length (txs res) = length (blocks res)
            \<longrightarrow> zip (blocks out) (txs out)
                  = take n (zip (blocks res) (txs res))
                    @ filter (\<lambda>p. keep (fst p)) (zip (blocks lastLoop) (txs lastLoop))
                    @ drop n (zip (blocks res) (txs res)))
       \<and> (sorted_wrt (<) (map Height (take n (blocks res)))
            \<and> list_all (\<lambda>b. Height b \<le> LIB) (take n (blocks res))
            \<and> sorted_wrt (<) (map Height (blocks lastLoop))
            \<and> sorted_wrt (<) (map Height (drop n (blocks res)))
            \<and> list_all (\<lambda>b. Height b > max (toNumber lastBest) LIB) (drop n (blocks res))
            \<longrightarrow> (\<forall>i. Suc i < length (blocks out)
                      \<longrightarrow> Height (blocks out ! i) < Height (blocks out ! Suc i))
                \<and> distinct (map Height (blocks out))))"
proof -
  let ?keep = "\<lambda>b. LIB < Height b \<and> Height b \<le> toNumber lastBest"
  let ?kept = "filter (\<lambda>i. ?keep (blocks lastLoop ! i)) [0..<length (blocks lastLoop)]"
  let ?out = "mergeResult lastLoop res n a LIB lastBest"
  have ri: "retainedIndices LIB lastBest (blocks lastLoop) = ?kept"
    by (simp add: retainedIndices_def retained_def)
  have rt: "retained LIB lastBest = ?keep"
    by (rule ext) (auto simp: retained_def)
  have B2: "blocks ?out = take n (blocks res) @ map (\<lambda>i. blocks lastLoop ! i) ?kept @ drop n (blocks res)"
    using assms by (simp add: mergeResult_def Let_def js_slice_take js_slice_from_drop ri)
  have T: "txs ?out = take n (txs res) @ map (\<lambda>i. js_nth (txs lastLoop) i) ?kept @ drop n (txs res)"
    using assms by (simp add: mergeResult_def Let_def js_slice_take js_slice_from_drop ri)
  have K: "map (\<lambda>i. blocks lastLoop ! i) ?kept = filter ?keep (blocks lastLoop)"
    using retained_blocks [of "blocks lastLoop" LIB lastBest] by (simp add: ri rt)
  have B1: "blocks ?out = take n (blocks res) @ filter ?keep (blocks lastLoop) @ drop n (blocks res)"
    using B2 K by simp
  have Z: "zip (blocks ?out) (txs ?out)
         = take n (zip (blocks res) (txs res))
           @ filter (\<lambda>p. ?keep (fst p)) (zip (blocks lastLoop) (txs lastLoop))
           @ drop n (zip (blocks res) (txs res))"
    if al: "length (txs lastLoop) = length (blocks lastLoop)" "length (txs res) = length (blocks res)"
  proof -
    have z: "zip (map (\<lambda>i. blocks lastLoop ! i) ?kept) (map (\<lambda>i. js_nth (txs lastLoop) i) ?kept)
             = filter (\<lambda>p. ?keep (fst p)) (zip (blocks lastLoop) (txs lastLoop))"
      using retained_zip [OF al(1), of LIB lastBest] by (simp add: ri rt)
    show ?thesis
      unfolding B2 T using al(2) z by (simp add: take_zip drop_zip)
  qed
  have S: "(\<forall>i. Suc i < length (blocks ?out) \<longrightarrow> Height (blocks ?out ! i) < Height (blocks ?out ! Suc i))
           \<and> distinct (map Height (blocks ?out))"
    if pre: "sorted_wrt (<) (map Height (take n (blocks res)))"
        "list_all (\<lambda>b. Height b \<le> LIB) (take n (blocks res))"
        "sorted_wrt (<) (map Height (blocks lastLoop))"
        "sorted_wrt (<) (map Height (drop n (blocks res)))"
        "list_all (\<lambda>b. Height b > max (toNumber lastBest) LIB) (drop n (blocks res))"
  proof -
    have "sorted_wrt (<) (map Height (blocks ?out))"
      unfolding B1 using pre by (rule strictly_ascending_merge)
    from sorted_wrt_adjacent [OF this] show ?thesis by simp
  qed
  show ?thesis
    unfolding Let_def using B1 B2 T Z S by blast
qed

theorem mergeResult_three_segments_witness:
  "length (blocks (resultAt [98, 100, 102, 104, 105])) \<noteq> 0
   \<and> blocks (mergeResult (resultAt [98, 100, 102, 104, 105]) (resultAt [99, 100, 106, 107]) 2 2 100 (Some 105))
       = map blockAt [99, 100, 102, 104, 105, 106, 107]
   \<and> txs (mergeResult (resultAt [98, 100, 102, 104, 105]) (resultAt [99, 100, 106, 107]) 2 2 100 (Some 105))
       = map txsAt [99, 100, 102, 104, 105, 106, 107]
   \<and> distinct (map Height (blocks (mergeResult (resultAt [98, 100, 102, 104, 105])
        (resultAt [99, 100, 106, 107]) 2 2 100 (Some 105))))"
proof -
  have ne: "length (blocks (resultAt [98, 100, 102, 104, 105])) \<noteq> 0"
    by (simp add: resultAt_def)
  show ?thesis
    using mergeResult_three_segments [OF ne, of "resultAt [99, 100, 106, 107]" 2 2 100 "Some 105"]
    by (simp add: Let_def resultAt_def blockAt_def txsAt_def toNumber_def js_nth_def)
qed

section \<open>Properties of makeConfig\<close>

lemma remdups_shorter_plain: "length (remdups ys) < length ys \<longleftrightarrow> \<not> distinct ys"
proof (cases "distinct ys")
  case True
  then show ?thesis by (simp add: distinct_remdups_id)
next
  case False
  then have "length (remdups ys) \<noteq> length ys"
    by (simp add: length_remdups_eq remdups_id_iff_distinct)
  with length_remdups_leq [of ys] have "length (remdups ys) < length ys" by linarith
  with False show ?thesis by simp
qed

lemma remdups_shorter:
  "length (remdups (map f xs)) < length xs \<longleftrightarrow> \<not> distinct (map f xs)"
  using remdups_shorter_plain [of "map f xs"] by simp

lemma makeConfig_rejects:
  assumes "scanMode (spread (config s) opts) = ''listener''"
    and "\<not> distinct (map tag (listeners (spread (config s) opts)))"
  shows "fst (makeConfig w opts s) = Inl DuplicatedListenerNames"
  using assms by (simp add: makeConfig_def Let_def remdups_shorter)

lemma makeConfig_accepts:
  assumes "scanMode (spread (config s) opts) \<noteq> ''listener'' \<or> distinct (map tag (listeners (spread (config s) opts)))"
  shows "fst (makeConfig w opts s) = (if isDBBaseOperation w then Inr () else Inl NotDBBaseOperation)"
  using assms by (simp add: makeConfig_def Let_def remdups_shorter)

lemma restart_rejects:
  assumes "fst (makeConfig w opts s) = Inl e"
  shows "restart fuel w opts s = Some (Inl e, snd (makeConfig w opts s))"
  using assms by (cases "makeConfig w opts s") (simp add: restart_def)

lemma newScanner_fst:
  "newScanner w opts = (case fst (makeConfig w opts blankScanner) of Inl e \<Rightarrow> Inl e | Inr u \<Rightarrow> Inr (snd (makeConfig w opts blankScanner)))"
  by (cases "makeConfig w opts blankScanner") (simp add: newScanner_def split: sum.splits)

lemma blank_config: "config blankScanner = defaultOptions"
  by (simp add: blankScanner_def)

text \<open>
  Claim C6, as amended. In scan mode \<open>listener\<close>, a listeners list with two entries of the
  same tag makes \<open>makeConfig\<close> raise the duplicated-listener error at once, in the
  constructor and in \<open>restart\<close> alike. In every other scan mode, or when the tags are
  distinct, the check passes: \<open>makeConfig\<close> then fails only when the sink is not an instance
  of \<open>DBBaseOperation\<close>.
\<close>

theorem makeConfig_duplicate_tags:
  "(let c = spread (config s) opts
    in (scanMode c = ''listener'' \<and> \<not> distinct (map tag (listeners c))
          \<longrightarrow> fst (makeConfig w opts s) = Inl DuplicatedListenerNames
              \<and> restart fuel w opts s = Some (Inl DuplicatedListenerNames, snd (makeConfig w opts s)))
     \<and> (scanMode c \<noteq> ''listener'' \<or> distinct (map tag (listeners c))
          \<longrightarrow> fst (makeConfig w opts s)
                = (if isDBBaseOperation w then Inr () else Inl NotDBBaseOperation)))
   \<and> (let c = spread defaultOptions opts
      in (scanMode c = ''listener'' \<and> \<not> distinct (map tag (listeners c))
            \<longrightarrow> newScanner w opts = Inl DuplicatedListenerNames)
       \<and> (scanMode c \<noteq> ''listener'' \<or> distinct (map tag (listeners c))
            \<longrightarrow> newScanner w opts
                = (if isDBBaseOperation w then Inr (snd (makeConfig w opts blankScanner))
                   else Inl NotDBBaseOperation)))"
proof -
  have A: "fst (makeConfig w opts s) = Inl DuplicatedListenerNames
           \<and> restart fuel w opts s = Some (Inl DuplicatedListenerNames, snd (makeConfig w opts s))"
    if "scanMode (spread (config s) opts) = ''listener''"
       "\<not> distinct (map tag (listeners (spread (config s) opts)))" for s
    using makeConfig_rejects [OF that] restart_rejects by blast
  have B: "newScanner w opts = Inl DuplicatedListenerNames"
    if "scanMode (spread defaultOptions opts) = ''listener''"
       "\<not> distinct (map tag (listeners (spread defaultOptions opts)))"
    using makeConfig_rejects [of blankScanner opts w] that
    by (simp add: newScanner_fst blank_config)
  have C: "newScanner w opts
             = (if isDBBaseOperation w then Inr (snd (makeConfig w opts blankScanner))
                else Inl NotDBBaseOperation)"
    if "scanMode (spread defaultOptions opts) \<noteq> ''listener''
        \<or> distinct (map tag (listeners (spread defaultOptions opts)))"
    using makeConfig_accepts [of blankScanner opts w] that
    by (simp add: newScanner_fst blank_config)
  note D = makeConfig_accepts [of s opts w]
  show ?thesis
    unfolding Let_def
  proof (intro conjI impI)
    assume h: "scanMode (spread (config s) opts) = ''listener''
               \<and> \<not> distinct (map tag (listeners (spread (config s) opts)))"
    then show "fst (makeConfig w opts s) = Inl DuplicatedListenerNames" using A by simp
    from h show "restart fuel w opts s = Some (Inl DuplicatedListenerNames, snd (makeConfig w opts s))"
      using A by simp
  next
    assume "scanMode (spread (config s) opts) \<noteq> ''listener''
            \<or> distinct (map tag (listeners (spread (config s) opts)))"
    then show "fst (makeConfig w opts s) = (if isDBBaseOperation w then Inr () else Inl NotDBBaseOperation)"
      by (rule D)
  next
    assume "scanMode (spread defaultOptions opts) = ''listener''
            \<and> \<not> distinct (map tag (listeners (spread defaultOptions opts)))"
    then show "newScanner w opts = Inl DuplicatedListenerNames" using B by simp
  next
    assume "scanMode (spread defaultOptions opts) \<noteq> ''listener''
            \<or> distinct (map tag (listeners (spread defaultOptions opts)))"
    then show "newScanner w opts
             = (if isDBBaseOperation w then Inr (snd (makeConfig w opts blankScanner))
                else Inl NotDBBaseOperation)" by (rule C)
  qed
qed


theorem makeConfig_duplicate_tags_witness:
  "scanMode (spread defaultOptions (noOptions\<lparr> o_scanMode := Some ''listener'', o_listeners := Some twinListeners \<rparr>)) = ''listener''
   \<and> \<not> distinct (map tag twinListeners)
   \<and> newScanner (calmWorld [(1, 1)]) (noOptions\<lparr> o_scanMode := Some ''listener'', o_listeners := Some twinListeners \<rparr>)
       = Inl DuplicatedListenerNames
   \<and> fst (makeConfig (calmWorld [(1, 1)]) (noOptions\<lparr> o_listeners := Some [] \<rparr>) blankScanner) = Inr ()"
  using makeConfig_duplicate_tags [of blankScanner "noOptions\<lparr> o_scanMode := Some ''listener'', o_listeners := Some twinListeners \<rparr>" "calmWorld [(1, 1)]" 0]
    makeConfig_duplicate_tags [of blankScanner "noOptions\<lparr> o_listeners := Some [] \<rparr>" "calmWorld [(1, 1)]" 0]
  by (simp add: Let_def spread_def noOptions_def twinListeners_def orElse_def defaultOptions_def calmWorld_def blankScanner_def)

text \<open>
  The claim as stated (the error is raised regardless of the scan mode) fails: with the
  default scan mode \<open>all\<close> and two listeners tagged \<open>A\<close>, construction succeeds.
\<close>

theorem duplicate_tags_all_mode_counterexample:
  "\<not> distinct (map tag (listeners (spread defaultOptions (noOptions\<lparr> o_listeners := Some twinListeners \<rparr>))))
   \<and> scanMode (spread defaultOptions (noOptions\<lparr> o_listeners := Some twinListeners \<rparr>)) = ''all''
   \<and> newScanner (calmWorld [(1, 1)]) (noOptions\<lparr> o_listeners := Some twinListeners \<rparr>)
       = Inr (snd (makeConfig (calmWorld [(1, 1)]) (noOptions\<lparr> o_listeners := Some twinListeners \<rparr>) blankScanner))
   \<and> fst (makeConfig (calmWorld [(1, 1)]) (noOptions\<lparr> o_listeners := Some twinListeners \<rparr>) blankScanner) = Inr ()"
  by (simp add: Let_def spread_def noOptions_def twinListeners_def orElse_def defaultOptions_def calmWorld_def blankScanner_def makeConfig_def newScanner_def)

section \<open>The ALL-mode fetcher\<close>

declare chunksOf.simps [simp del]

lemma chunksOf_Nil [simp]: "chunksOf c [] = []"
  by (simp add: chunksOf.simps)

lemma chunksOf_step: "0 < c \<Longrightarrow> xs \<noteq> [] \<Longrightarrow> chunksOf c xs = take c xs # chunksOf c (drop c xs)"
  by (subst chunksOf.simps) simp

lemma concat_chunksOf: "0 < c \<Longrightarrow> concat (chunksOf c xs) = xs"
proof (induction c xs rule: chunksOf.induct)
  case (1 c xs)
  show ?case
  proof (cases "xs = []")
    case True then show ?thesis by simp
  next
    case False
    with 1 show ?thesis by (simp add: chunksOf_step)
  qed
qed

lemma chunksOf_bounded: "0 < c \<Longrightarrow> ch \<in> set (chunksOf c xs) \<Longrightarrow> ch \<noteq> [] \<and> length ch \<le> c"
proof (induction c xs rule: chunksOf.induct)
  case (1 c xs)
  show ?case
  proof (cases "xs = []")
    case True with 1 show ?thesis by simp
  next
    case False
    with 1 show ?thesis by (auto simp: chunksOf_step)
  qed
qed

lemma js_slice_chunk:
  "0 < c \<Longrightarrow> js_slice xs (int k) (int k + int c) = take c (drop k xs)"
  by (auto simp: js_slice_def Let_def min_def nat_add_distrib nat_diff_distrib)

lemma queryAllLoop_chunks:
  assumes "concurrentQueryLimit (config s) = int c" "0 < c" "length (drop k heights) < n"
  shows "queryAllLoop n w heights (int k) acc s = fetchChunks w (chunksOf c (drop k heights)) acc s"
  using assms
proof (induction n arbitrary: k acc s)
  case 0
  then show ?case by simp
next
  case (Suc n)
  show ?case
  proof (cases "k < length heights")
    case False
    then show ?thesis by simp
  next
    case True
    let ?rest = "drop k heights"
    let ?s1 = "s\<lparr> trace := trace s @ [Queries (take c ?rest)] \<rparr>"
    have ne: "?rest \<noteq> []" using True by simp
    have sl: "js_slice heights (int k) (int k + int c) = take c ?rest"
      using Suc.prems(2) by (rule js_slice_chunk)
    have len: "length (drop (k + c) heights) < n"
      using Suc.prems True by simp
    have ih: "queryAllLoop n w heights (int (k + c)) acc' ?s1
              = fetchChunks w (chunksOf c (drop (c + k) heights)) acc' ?s1" for acc'
      using Suc.IH [of ?s1 "k + c" acc'] Suc.prems(1,2) len by (simp add: add.commute)
    show ?thesis
      using True Suc.prems(1) ih
      by (simp add: chunksOf_step [OF Suc.prems(2) ne] sl Let_def split: sum.splits)
  qed
qed


lemma promiseAll_Inr: "promiseAll rs = Inr xs \<longleftrightarrow> rs = map Inr xs"
proof (induction rs arbitrary: xs)
  case Nil
  then show ?case by auto
next
  case (Cons r rs)
  show ?case
  proof (cases r)
    case (Inl e)
    then show ?thesis by auto
  next
    case (Inr x)
    show ?thesis
    proof (cases "promiseAll rs")
      case (Inl e)
      with Cons.IH have "\<And>ys. rs \<noteq> map Inr ys" by auto
      with Inl Inr show ?thesis by (cases xs) auto
    next
      case r2: (Inr ys)
      with Cons.IH have "rs = map Inr ys" by auto
      with r2 Inr show ?thesis by (cases xs) (auto simp: inj_map_eq_map)
    qed
  qed
qed

lemma promiseAll_Inl: "promiseAll rs = Inl e \<Longrightarrow> Inl e \<in> set rs"
  by (induction rs rule: promiseAll.induct) (auto split: sum.splits)


lemma fetchChunks_outcome:
  "\<exists>m r. fetchChunks w chs acc s = Some (r, s\<lparr> trace := trace s @ map Queries (take m chs) \<rparr>)
       \<and> (case r of
             Inl e \<Rightarrow> \<exists>h\<in>set (concat chs). queryTransactionsByHeight w h = Inl e
           | Inr res \<Rightarrow> m = length chs
               \<and> (\<exists>answers. map (queryTransactionsByHeight w) (concat chs) = map Inr answers
                      \<and> concat res = concat acc @ answers))"
proof (induction chs arbitrary: acc s)
  case Nil
  have "fetchChunks w [] acc s = Some (Inr acc, s\<lparr> trace := trace s @ map Queries (take 0 []) \<rparr>)"
    by simp
  then show ?case by fastforce
next
  case (Cons ch chs)
  let ?s1 = "s\<lparr> trace := trace s @ [Queries ch] \<rparr>"
  show ?case
  proof (cases "promiseAll (map (queryTransactionsByHeight w) ch)")
    case (Inl e)
    then have "Inl e \<in> set (map (queryTransactionsByHeight w) ch)"
      by (rule promiseAll_Inl)
    then have ex: "\<exists>h\<in>set (concat (ch # chs)). queryTransactionsByHeight w h = Inl e"
      by auto
    have "fetchChunks w (ch # chs) acc s
          = Some (Inl e, s\<lparr> trace := trace s @ map Queries (take 1 (ch # chs)) \<rparr>)"
      using Inl by simp
    with ex show ?thesis
      by (intro exI [of _ 1] exI [of _ "Inl e"]) simp
  next
    case (Inr a)
    then have qa: "map (queryTransactionsByHeight w) ch = map Inr a"
      by (simp add: promiseAll_Inr)
    from Cons.IH [of "acc @ [a]" ?s1] obtain m r where
      run: "fetchChunks w chs (acc @ [a]) ?s1
            = Some (r, ?s1\<lparr> trace := trace ?s1 @ map Queries (take m chs) \<rparr>)"
      and out: "(case r of
             Inl e \<Rightarrow> \<exists>h\<in>set (concat chs). queryTransactionsByHeight w h = Inl e
           | Inr res \<Rightarrow> m = length chs
               \<and> (\<exists>answers. map (queryTransactionsByHeight w) (concat chs) = map Inr answers
                      \<and> concat res = concat (acc @ [a]) @ answers))"
      by blast
    have step: "fetchChunks w (ch # chs) acc s
          = Some (r, s\<lparr> trace := trace s @ map Queries (take (Suc m) (ch # chs)) \<rparr>)"
      using Inr run by simp
    have "(case r of
             Inl e \<Rightarrow> \<exists>h\<in>set (concat (ch # chs)). queryTransactionsByHeight w h = Inl e
           | Inr res \<Rightarrow> Suc m = length (ch # chs)
               \<and> (\<exists>answers. map (queryTransactionsByHeight w) (concat (ch # chs)) = map Inr answers
                      \<and> concat res = concat acc @ answers))"
    proof (cases r)
      case (Inl e)
      with out show ?thesis by auto
    next
      case r: (Inr res)
      with out obtain answers where
        m: "m = length chs"
        and a1: "map (queryTransactionsByHeight w) (concat chs) = map Inr answers"
        and a2: "concat res = concat (acc @ [a]) @ answers"
        by auto
      have "map (queryTransactionsByHeight w) (concat (ch # chs)) = map Inr (a @ answers)"
        using qa a1 by simp
      moreover have "concat res = concat acc @ (a @ answers)"
        using a2 by simp
      ultimately show ?thesis using r m by auto
    qed
    with step show ?thesis by blast
  qed
qed

lemma queryAllBlocksAndTxs_outcome:
  assumes "0 < concurrentQueryLimit (config s)" and "length heights < fuel"
  shows "\<exists>chunks. concat chunks = heights
          \<and> (\<forall>ch\<in>set chunks. ch \<noteq> [] \<and> int (length ch) \<le> concurrentQueryLimit (config s))
          \<and> (\<exists>m r. queryAllBlocksAndTxs fuel w heights type s
                     = Some (r, s\<lparr> trace := trace s @ map Queries (take m chunks) \<rparr>)
               \<and> (case r of
                     Inl e \<Rightarrow> \<exists>h\<in>set heights. queryTransactionsByHeight w h = Inl e
                   | Inr res \<Rightarrow> m = length chunks \<and> rtype res = Some type
                       \<and> (\<exists>answers.
                             map (queryTransactionsByHeight w) heights = map Inr answers
                             \<and> blocks res = map fst answers
                             \<and> txs res = map (\<lambda>a. Some (snd a)) answers
                             \<and> ((\<forall>h b t. queryTransactionsByHeight w h = Inr (b, t) \<longrightarrow> Height b = h)
                                  \<longrightarrow> map Height (blocks res) = heights))))"
proof -
  define c where "c = nat (concurrentQueryLimit (config s))"
  have c: "concurrentQueryLimit (config s) = int c" "0 < c"
    using assms(1) by (simp_all add: c_def)
  let ?chunks = "chunksOf c heights"
  have loop: "queryAllLoop fuel w heights 0 [] s = fetchChunks w ?chunks [] s"
    using queryAllLoop_chunks [of s c 0 heights fuel w "[]"] c assms(2) by simp
  from fetchChunks_outcome [of w ?chunks "[]" s] obtain m r where
    run: "fetchChunks w ?chunks [] s = Some (r, s\<lparr> trace := trace s @ map Queries (take m ?chunks) \<rparr>)"
    and out: "(case r of
             Inl e \<Rightarrow> \<exists>h\<in>set (concat ?chunks). queryTransactionsByHeight w h = Inl e
           | Inr res \<Rightarrow> m = length ?chunks
               \<and> (\<exists>answers. map (queryTransactionsByHeight w) (concat ?chunks) = map Inr answers
                      \<and> concat res = concat [] @ answers))"
    by blast
  have cc: "concat ?chunks = heights" using c(2) by (rule concat_chunksOf)
  have bd: "\<forall>ch\<in>set ?chunks. ch \<noteq> [] \<and> int (length ch) \<le> concurrentQueryLimit (config s)"
    using chunksOf_bounded [OF c(2)] c(1) by fastforce
  let ?s1 = "s\<lparr> trace := trace s @ map Queries (take m ?chunks) \<rparr>"
  have "\<exists>r'. queryAllBlocksAndTxs fuel w heights type s = Some (r', ?s1)
          \<and> (case r' of
                Inl e \<Rightarrow> \<exists>h\<in>set heights. queryTransactionsByHeight w h = Inl e
              | Inr res \<Rightarrow> m = length ?chunks \<and> rtype res = Some type
                  \<and> (\<exists>answers.
                        map (queryTransactionsByHeight w) heights = map Inr answers
                        \<and> blocks res = map fst answers
                        \<and> txs res = map (\<lambda>a. Some (snd a)) answers
                        \<and> ((\<forall>h b t. queryTransactionsByHeight w h = Inr (b, t) \<longrightarrow> Height b = h)
                             \<longrightarrow> map Height (blocks res) = heights)))"
  proof (cases r)
    case (Inl e)
    with run loop have "queryAllBlocksAndTxs fuel w heights type s = Some (Inl e, ?s1)"
      by (simp add: queryAllBlocksAndTxs_def andThen_def)
    moreover from out Inl cc have "\<exists>h\<in>set heights. queryTransactionsByHeight w h = Inl e"
      by simp
    ultimately show ?thesis by (intro exI [of _ "Inl e"]) simp
  next
    case (Inr res)
    with out cc obtain answers where
      m: "m = length ?chunks"
      and a1: "map (queryTransactionsByHeight w) heights = map Inr answers"
      and a2: "concat res = answers"
      by auto
    let ?res = "\<lparr> blocks = map fst answers, txs = map (\<lambda>v. Some (snd v)) answers,
                  rtype = Some type, LIBHeight = None, bestHeight = None \<rparr>"
    have q: "queryAllBlocksAndTxs fuel w heights type s = Some (Inr ?res, ?s1)"
      using run loop Inr a2 by (simp add: queryAllBlocksAndTxs_def andThen_def Let_def)
    have fid: "map Height (map fst answers) = heights"
      if "\<forall>h b t. queryTransactionsByHeight w h = Inr (b, t) \<longrightarrow> Height b = h"
    proof (rule nth_equalityI)
      show len: "length (map Height (map fst answers)) = length heights"
        using a1 by (metis length_map)
      fix i assume "i < length (map Height (map fst answers))"
      then have i: "i < length heights" "i < length answers" using len by simp_all
      have "queryTransactionsByHeight w (heights ! i) = Inr (answers ! i)"
        using i a1 by (metis nth_map)
      then have "Height (fst (answers ! i)) = heights ! i"
        using that by (cases "answers ! i") auto
      then show "map Height (map fst answers) ! i = heights ! i"
        using i by simp
    qed
    show ?thesis
      using q m a1 fid by (intro exI [of _ "Inr ?res"]) auto
  qed
  with cc bd show ?thesis by blast
qed


section \<open>The LISTENER-mode fetcher\<close>

lemma pushBlock_map:
  "pushBlock b trs t acc =
     (case map_of acc t of None \<Rightarrow> Inl TypeError
      | Some bs \<Rightarrow> Inr (AList.update t (bs @ [annotate b t trs]) acc))"
  by (simp add: pushBlock_def)

lemma forTags_ok:
  "set ts \<subseteq> dom (map_of acc) \<Longrightarrow>
     \<exists>acc'. forTags b trs ts acc = Inr acc'
       \<and> (\<forall>t. map_of acc' t
             = map_option (\<lambda>bs. bs @ replicate (count_list ts t) (annotate b t trs)) (map_of acc t))"
proof (induction ts arbitrary: acc)
  case Nil
  then show ?case by (simp add: option.map_ident)
next
  case (Cons u ts)
  then obtain bs where bs: "map_of acc u = Some bs" by auto
  let ?acc1 = "AList.update u (bs @ [annotate b u trs]) acc"
  have m1: "map_of ?acc1 = (map_of acc)(u \<mapsto> bs @ [annotate b u trs])"
    by (simp add: update_conv')
  have "set ts \<subseteq> dom (map_of ?acc1)" using Cons.prems by (auto simp: m1)
  from Cons.IH [OF this] obtain acc' where
    r: "forTags b trs ts ?acc1 = Inr acc'"
    and c: "\<forall>t. map_of acc' t
             = map_option (\<lambda>bs. bs @ replicate (count_list ts t) (annotate b t trs)) (map_of ?acc1 t)"
    by blast
  have "forTags b trs (u # ts) acc = Inr acc'"
    using bs r by (simp add: pushBlock_def)
  moreover have "map_of acc' t
      = map_option (\<lambda>bs. bs @ replicate (count_list (u # ts) t) (annotate b t trs)) (map_of acc t)" for t
    using c bs by (cases "t = u") (simp_all add: m1 replicate_app_Cons_same)
  ultimately show ?case by blast
qed

lemma forTags_foreign:
  "\<not> set ts \<subseteq> dom (map_of acc) \<Longrightarrow> forTags b trs ts acc = Inl TypeError"
proof (induction ts arbitrary: acc)
  case Nil
  then show ?case by simp
next
  case (Cons u ts)
  show ?case
  proof (cases "map_of acc u")
    case None
    then show ?thesis by (simp add: pushBlock_def)
  next
    case (Some bs)
    let ?acc1 = "AList.update u (bs @ [annotate b u trs]) acc"
    have "dom (map_of ?acc1) = dom (map_of acc)"
      using Some by (auto simp: update_conv')
    with Cons.prems Some have "\<not> set ts \<subseteq> dom (map_of ?acc1)" by auto
    from Cons.IH [OF this] show ?thesis using Some by (simp add: pushBlock_def)
  qed
qed

lemma reduceResults_ok:
  "\<forall>v\<in>set vs. set (scanTags (fst v)) \<subseteq> dom (map_of acc) \<Longrightarrow>
     \<exists>acc'. reduceResults vs acc = Inr acc'
       \<and> (\<forall>t. map_of acc' t = map_option (\<lambda>bs. bs @ bucketOf t vs) (map_of acc t))"
proof (induction vs arbitrary: acc)
  case Nil
  then show ?case by (simp add: bucketOf_def option.map_ident)
next
  case (Cons v vs)
  then have "set (scanTags (fst v)) \<subseteq> dom (map_of acc)" by simp
  from forTags_ok [OF this, of "fst v" "snd v"] obtain acc1 where
    r1: "forTags (fst v) (snd v) (scanTags (fst v)) acc = Inr acc1"
    and c1: "\<forall>t. map_of acc1 t
       = map_option (\<lambda>bs. bs @ replicate (count_list (scanTags (fst v)) t) (annotate (fst v) t (snd v)))
           (map_of acc t)"
    by blast
  have "dom (map_of acc1) = dom (map_of acc)"
    using c1 by (auto simp: dom_def)
  with Cons.prems have "\<forall>v\<in>set vs. set (scanTags (fst v)) \<subseteq> dom (map_of acc1)" by simp
  from Cons.IH [OF this] obtain acc' where
    r2: "reduceResults vs acc1 = Inr acc'"
    and c2: "\<forall>t. map_of acc' t = map_option (\<lambda>bs. bs @ bucketOf t vs) (map_of acc1 t)"
    by blast
  have "reduceResults (v # vs) acc = Inr acc'" using r1 r2 by simp
  moreover have "map_of acc' t = map_option (\<lambda>bs. bs @ bucketOf t (v # vs)) (map_of acc t)" for t
    using c1 c2 by (cases "map_of acc t") (simp_all add: bucketOf_def)
  ultimately show ?case by blast
qed

lemma reduceResults_foreign:
  "\<not> (\<forall>v\<in>set vs. set (scanTags (fst v)) \<subseteq> dom (map_of acc)) \<Longrightarrow>
     reduceResults vs acc = Inl TypeError"
proof (induction vs arbitrary: acc)
  case Nil
  then show ?case by simp
next
  case (Cons v vs)
  show ?case
  proof (cases "set (scanTags (fst v)) \<subseteq> dom (map_of acc)")
    case False
    then show ?thesis by (simp add: forTags_foreign)
  next
    case True
    from forTags_ok [OF this, of "fst v" "snd v"] obtain acc1 where
      r1: "forTags (fst v) (snd v) (scanTags (fst v)) acc = Inr acc1"
      and c1: "\<forall>t. map_of acc1 t
         = map_option (\<lambda>bs. bs @ replicate (count_list (scanTags (fst v)) t) (annotate (fst v) t (snd v)))
             (map_of acc t)"
      by blast
    have "dom (map_of acc1) = dom (map_of acc)"
      using c1 by (auto simp: dom_def)
    with Cons.prems True have "\<not> (\<forall>v\<in>set vs. set (scanTags (fst v)) \<subseteq> dom (map_of acc1))"
      by simp
    from Cons.IH [OF this] show ?thesis using r1 by simp
  qed
qed

lemma tagsObj_fold:
  "map_of (foldl (\<lambda>acc t. AList.update t [] acc) acc0 ts) t
     = (if t \<in> set ts then Some [] else map_of acc0 t)"
  by (induction ts arbitrary: acc0) (auto simp: update_conv')

lemma map_of_tagsObj:
  "map_of (tagsObj ls) t = (if t \<in> tag ` set ls then Some [] else None)"
  by (simp add: tagsObj_def tagsObj_fold)


lemma bloomLoop_outcome:
  assumes "concurrentQueryLimit (config s) = int c" "listeners (config s) = ls"
    "0 < c" "length (drop k heights) < n"
  shows "\<exists>m r. bloomLoop n w heights (int k) acc s
                 = Some (r, s\<lparr> trace := trace s @ map Queries (take m (chunksOf c (drop k heights))) \<rparr>)
       \<and> (case r of
             Inl e \<Rightarrow> \<exists>h\<in>set (drop k heights). queryBlocksAndTxsByBloom w h ls = Inl e
           | Inr res \<Rightarrow> m = length (chunksOf c (drop k heights))
               \<and> (\<exists>answers.
                     map (\<lambda>v. queryBlocksAndTxsByBloom w v ls) (drop k heights) = map Inr answers
                     \<and> res = acc @ answers))"
  using assms
proof (induction n arbitrary: k acc s)
  case 0
  then show ?case by simp
next
  case (Suc n)
  let ?q = "\<lambda>v. queryBlocksAndTxsByBloom w v ls"
  let ?rest = "drop k heights"
  show ?case
  proof (cases "k < length heights")
    case False
    then have "bloomLoop (Suc n) w heights (int k) acc s
               = Some (Inr acc, s\<lparr> trace := trace s @ map Queries (take 0 (chunksOf c ?rest)) \<rparr>)"
      by simp
    moreover have "?rest = []" using False by simp
    ultimately show ?thesis
      by (intro exI [of _ 0] exI [of _ "Inr acc"]) simp
  next
    case True
    let ?ch = "take c ?rest"
    let ?s1 = "s\<lparr> trace := trace s @ [Queries ?ch] \<rparr>"
    have ne: "?rest \<noteq> []" using True by simp
    have sl: "js_slice heights (int k) (int k + int c) = ?ch"
      using Suc.prems(3) by (rule js_slice_chunk)
    have kc: "drop (k + c) heights = drop (c + k) heights" by (simp add: add.commute)
    have chs: "chunksOf c ?rest = ?ch # chunksOf c (drop (k + c) heights)"
      using chunksOf_step [OF Suc.prems(3) ne] by (simp add: kc)
    have split_rest: "?rest = ?ch @ drop (k + c) heights"
      by (metis append_take_drop_id drop_drop add.commute)
    show ?thesis
    proof (cases "promiseAll (map ?q ?ch)")
      case (Inl e)
      then have "Inl e \<in> set (map ?q ?ch)" by (rule promiseAll_Inl)
      then have "\<exists>h\<in>set ?ch. ?q h = Inl e" by auto
      then have ex: "\<exists>h\<in>set ?rest. ?q h = Inl e" by (meson in_set_takeD)
      have "bloomLoop (Suc n) w heights (int k) acc s
            = Some (Inl e, s\<lparr> trace := trace s @ map Queries (take 1 (chunksOf c ?rest)) \<rparr>)"
        using True Suc.prems(1,2) Inl by (simp add: sl chs Let_def)
      with ex show ?thesis
        by (intro exI [of _ 1] exI [of _ "Inl e"]) simp
    next
      case (Inr a)
      then have qa: "map ?q ?ch = map Inr a" by (simp add: promiseAll_Inr)
      have len: "length (drop (k + c) heights) < n"
        using Suc.prems True by simp
      have p1: "concurrentQueryLimit (config ?s1) = int c" using Suc.prems(1) by simp
      have p2: "listeners (config ?s1) = ls" using Suc.prems(2) by simp
      from Suc.IH [OF p1 p2 Suc.prems(3) len, of "acc @ a"] obtain m r where
        run: "bloomLoop n w heights (int (k + c)) (acc @ a) ?s1
              = Some (r, ?s1\<lparr> trace := trace ?s1 @ map Queries (take m (chunksOf c (drop (k + c) heights))) \<rparr>)"
        and out: "(case r of
             Inl e \<Rightarrow> \<exists>h\<in>set (drop (k + c) heights). ?q h = Inl e
           | Inr res \<Rightarrow> m = length (chunksOf c (drop (k + c) heights))
               \<and> (\<exists>answers. map ?q (drop (k + c) heights) = map Inr answers
                     \<and> res = (acc @ a) @ answers))"
        by blast
      have step: "bloomLoop (Suc n) w heights (int k) acc s
            = Some (r, s\<lparr> trace := trace s @ map Queries (take (Suc m) (chunksOf c ?rest)) \<rparr>)"
        using True Suc.prems(1,2) Inr run by (simp add: sl chs Let_def)
      have "(case r of
             Inl e \<Rightarrow> \<exists>h\<in>set ?rest. ?q h = Inl e
           | Inr res \<Rightarrow> Suc m = length (chunksOf c ?rest)
               \<and> (\<exists>answers. map ?q ?rest = map Inr answers \<and> res = acc @ answers))"
      proof (cases r)
        case (Inl e)
        have "set (drop (k + c) heights) \<subseteq> set ?rest"
          by (metis split_rest Un_upper2 set_append)
        with out Inl show ?thesis by auto
      next
        case r: (Inr res)
        with out obtain answers where
          m: "m = length (chunksOf c (drop (k + c) heights))"
          and a1: "map ?q (drop (k + c) heights) = map Inr answers"
          and a2: "res = (acc @ a) @ answers"
          by auto
        have "map ?q ?rest = map Inr (a @ answers)"
          using qa a1 split_rest by (metis map_append)
        moreover have "res = acc @ (a @ answers)" using a2 by simp
        ultimately show ?thesis using r m chs by auto
      qed
      with step show ?thesis by blast
    qed
  qed
qed


lemma set_bucketOf:
  "lb \<in> set (bucketOf t vs)
     \<longleftrightarrow> (\<exists>v\<in>set vs. t \<in> set (scanTags (fst v)) \<and> lb = annotate (fst v) t (snd v))"
proof (induction vs)
  case Nil
  then show ?case by (simp add: bucketOf_def)
next
  case (Cons v vs)
  have "bucketOf t (v # vs)
        = replicate (count_list (scanTags (fst v)) t) (annotate (fst v) t (snd v)) @ bucketOf t vs"
    by (simp add: bucketOf_def)
  then show ?case
    using Cons.IH by (auto simp: count_list_0_iff)
qed

lemma dom_tagsObj: "dom (map_of (tagsObj ls)) = tag ` set ls"
  by (auto simp: dom_def map_of_tagsObj)

lemma queryBlockAndTxsWithBloom_outcome:
  assumes "0 < concurrentQueryLimit (config s)" and "length heights < fuel"
  shows "\<exists>r qs. queryBlockAndTxsWithBloom fuel w heights type s
                  = Some (r, s\<lparr> trace := trace s @ map Queries qs \<rparr>)
     \<and> (let ls = listeners (config s); known = tag ` set ls
        in case r of
          Inl e \<Rightarrow>
            (\<exists>h\<in>set heights. queryBlocksAndTxsByBloom w h ls = Inl e)
            \<or> (e = TypeError
                \<and> (\<exists>answers. map (\<lambda>h. queryBlocksAndTxsByBloom w h ls) heights = map Inr answers
                     \<and> (\<exists>v\<in>set (List.map_filter (\<lambda>v. v) answers). \<not> set (scanTags (fst v)) \<subseteq> known)))
        | Inr res \<Rightarrow>
            concat qs = heights \<and> (\<exists>answers. map (\<lambda>h. queryBlocksAndTxsByBloom w h ls) heights = map Inr answers
               \<and> (let got = List.map_filter (\<lambda>v. v) answers
                  in (\<forall>v\<in>set got. set (scanTags (fst v)) \<subseteq> known)
                   \<and> (\<forall>t. map_of (results res) t
                           = (if t \<in> known then Some (bucketOf t got) else None))
                   \<and> (\<forall>v\<in>set got. \<forall>t\<in>set (scanTags (fst v)).
                         \<exists>bs. map_of (results res) t = Some bs
                              \<and> annotate (fst v) t (snd v) \<in> set bs)
                   \<and> (\<forall>t bs lb. map_of (results res) t = Some bs \<and> lb \<in> set bs
                         \<longrightarrow> (\<exists>v\<in>set got. t \<in> set (scanTags (fst v))
                                  \<and> lb = annotate (fst v) t (snd v)))
                   \<and> (\<forall>b t trs. transactionList (annotate b t trs)
                                   = filter (\<lambda>x. t \<in> set (scanTags x)) trs))))"
proof -
  define c where "c = nat (concurrentQueryLimit (config s))"
  define ls where "ls = listeners (config s)"
  define known where "known = tag ` set ls"
  let ?Q = "\<lambda>h. queryBlocksAndTxsByBloom w h ls"
  have c: "concurrentQueryLimit (config s) = int c" "0 < c"
    using assms(1) by (simp_all add: c_def)
  have l: "listeners (config s) = ls" by (simp add: ls_def)
  have len: "length (drop 0 heights) < fuel" using assms(2) by simp
  from bloomLoop_outcome [OF c(1) l c(2) len, of w "[]"] obtain m r0 where
    run: "bloomLoop fuel w heights (int 0) [] s
          = Some (r0, s\<lparr> trace := trace s @ map Queries (take m (chunksOf c (drop 0 heights))) \<rparr>)"
    and out: "(case r0 of
             Inl e \<Rightarrow> \<exists>h\<in>set (drop 0 heights). ?Q h = Inl e
           | Inr res \<Rightarrow> m = length (chunksOf c (drop 0 heights))
               \<and> (\<exists>answers. map ?Q (drop 0 heights) = map Inr answers \<and> res = [] @ answers))"
    by blast
  let ?qs = "take m (chunksOf c heights)"
  let ?s1 = "s\<lparr> trace := trace s @ map Queries ?qs \<rparr>"
  have run': "bloomLoop fuel w heights 0 [] s = Some (r0, ?s1)" using run by simp
  have "\<exists>r. queryBlockAndTxsWithBloom fuel w heights type s = Some (r, ?s1)
     \<and> (case r of
          Inl e \<Rightarrow>
            (\<exists>h\<in>set heights. ?Q h = Inl e)
            \<or> (e = TypeError
                \<and> (\<exists>answers. map ?Q heights = map Inr answers
                     \<and> (\<exists>v\<in>set (List.map_filter (\<lambda>v. v) answers). \<not> set (scanTags (fst v)) \<subseteq> known)))
        | Inr res \<Rightarrow>
            concat ?qs = heights \<and> (\<exists>answers. map ?Q heights = map Inr answers
               \<and> (let got = List.map_filter (\<lambda>v. v) answers
                  in (\<forall>v\<in>set got. set (scanTags (fst v)) \<subseteq> known)
                   \<and> (\<forall>t. map_of (results res) t
                           = (if t \<in> known then Some (bucketOf t got) else None))
                   \<and> (\<forall>v\<in>set got. \<forall>t\<in>set (scanTags (fst v)).
                         \<exists>bs. map_of (results res) t = Some bs
                              \<and> annotate (fst v) t (snd v) \<in> set bs)
                   \<and> (\<forall>t bs lb. map_of (results res) t = Some bs \<and> lb \<in> set bs
                         \<longrightarrow> (\<exists>v\<in>set got. t \<in> set (scanTags (fst v))
                                  \<and> lb = annotate (fst v) t (snd v)))
                   \<and> (\<forall>b t trs. transactionList (annotate b t trs)
                                   = filter (\<lambda>x. t \<in> set (scanTags x)) trs))))"
  proof (cases r0)
    case (Inl e)
    with run' have "queryBlockAndTxsWithBloom fuel w heights type s = Some (Inl e, ?s1)"
      by (simp add: queryBlockAndTxsWithBloom_def andThen_def)
    moreover from out Inl have "\<exists>h\<in>set heights. ?Q h = Inl e" by simp
    ultimately show ?thesis by (intro exI [of _ "Inl e"]) simp
  next
    case (Inr answers)
    with out have ans: "map ?Q heights = map Inr answers" by auto
    let ?got = "List.map_filter (\<lambda>v. v) answers"
    have bl: "bloomLoop fuel w heights 0 [] s = Some (Inr answers, ?s1)"
      using run' Inr by simp
    show ?thesis
    proof (cases "\<forall>v\<in>set ?got. set (scanTags (fst v)) \<subseteq> known")
      case False
      then have "\<not> (\<forall>v\<in>set ?got. set (scanTags (fst v)) \<subseteq> dom (map_of (tagsObj ls)))"
        by (simp add: dom_tagsObj known_def)
      then have "reduceResults ?got (tagsObj ls) = Inl TypeError"
        by (rule reduceResults_foreign)
      then have "queryBlockAndTxsWithBloom fuel w heights type s = Some (Inl TypeError, ?s1)"
        using bl l by (simp add: queryBlockAndTxsWithBloom_def andThen_def)
      moreover have "\<exists>answers. map ?Q heights = map Inr answers
                     \<and> (\<exists>v\<in>set (List.map_filter (\<lambda>v. v) answers). \<not> set (scanTags (fst v)) \<subseteq> known)"
        using ans False by blast
      ultimately show ?thesis by (intro exI [of _ "Inl TypeError"]) simp
    next
      case True
      then have "\<forall>v\<in>set ?got. set (scanTags (fst v)) \<subseteq> dom (map_of (tagsObj ls))"
        by (simp add: dom_tagsObj known_def)
      from reduceResults_ok [OF this] obtain acc' where
        rr: "reduceResults ?got (tagsObj ls) = Inr acc'"
        and mp: "\<forall>t. map_of acc' t = map_option (\<lambda>bs. bs @ bucketOf t ?got) (map_of (tagsObj ls) t)"
        by blast
      let ?res = "\<lparr> largestHeight =
                     (if length heights > 0 then heights ! (length heights - 1)
                      else startHeight (config ?s1) - 1),
                   results = acc', ltype = Some type, lLIBHeight = None, lbestHeight = None \<rparr>"
      have q: "queryBlockAndTxsWithBloom fuel w heights type s = Some (Inr ?res, ?s1)"
        using bl l rr by (simp add: queryBlockAndTxsWithBloom_def andThen_def)
      have b1: "map_of (results ?res) t = (if t \<in> known then Some (bucketOf t ?got) else None)" for t
        using mp by (simp add: map_of_tagsObj known_def)
      have b2: "\<exists>bs. map_of (results ?res) t = Some bs \<and> annotate (fst v) t (snd v) \<in> set bs"
        if "v \<in> set ?got" "t \<in> set (scanTags (fst v))" for v t
      proof -
        have "t \<in> known" using True that by blast
        then have "map_of (results ?res) t = Some (bucketOf t ?got)" using b1 by simp
        moreover have "annotate (fst v) t (snd v) \<in> set (bucketOf t ?got)"
          unfolding set_bucketOf using that by blast
        ultimately show ?thesis by blast
      qed
      have b3: "\<exists>v\<in>set ?got. t \<in> set (scanTags (fst v)) \<and> lb = annotate (fst v) t (snd v)"
        if "map_of (results ?res) t = Some bs \<and> lb \<in> set bs" for t bs lb
      proof -
        from that b1 [of t] have "bs = bucketOf t ?got" by (auto split: if_splits)
        with that have "lb \<in> set (bucketOf t ?got)" by simp
        then show ?thesis unfolding set_bucketOf by blast
      qed
      have b4: "transactionList (annotate b t trs) = filter (\<lambda>x. t \<in> set (scanTags x)) trs" for b t trs
        by (simp add: annotate_def)
      have "\<exists>answers. map ?Q heights = map Inr answers
               \<and> (let got = List.map_filter (\<lambda>v. v) answers
                  in (\<forall>v\<in>set got. set (scanTags (fst v)) \<subseteq> known)
                   \<and> (\<forall>t. map_of (results ?res) t
                           = (if t \<in> known then Some (bucketOf t got) else None))
                   \<and> (\<forall>v\<in>set got. \<forall>t\<in>set (scanTags (fst v)).
                         \<exists>bs. map_of (results ?res) t = Some bs
                              \<and> annotate (fst v) t (snd v) \<in> set bs)
                   \<and> (\<forall>t bs lb. map_of (results ?res) t = Some bs \<and> lb \<in> set bs
                         \<longrightarrow> (\<exists>v\<in>set got. t \<in> set (scanTags (fst v))
                                  \<and> lb = annotate (fst v) t (snd v)))
                   \<and> (\<forall>b t trs. transactionList (annotate b t trs)
                                   = filter (\<lambda>x. t \<in> set (scanTags x)) trs))"
        unfolding Let_def
        using ans True b1 b2 b3 b4 by (intro exI [of _ answers] conjI allI ballI impI) blast+
      moreover have "concat ?qs = heights"
        using out Inr concat_chunksOf [OF c(2), of heights] by simp
      ultimately show ?thesis using q by (intro exI [of _ "Inr ?res"]) simp
    qed
  qed
  then show ?thesis
    unfolding Let_def ls_def [symmetric] known_def [symmetric] by blast
qed


section \<open>Gap backfill\<close>

lemma queryAllLoop_frame:
  "queryAllLoop n w hs i acc s = Some (r, s1) \<Longrightarrow>
     \<exists>qs. s1 = s\<lparr> trace := trace s @ map Queries qs \<rparr>"
proof (induction n arbitrary: i acc s)
  case 0
  then show ?case by simp
next
  case (Suc n)
  show ?case
  proof (cases "i < int (length hs)")
    case False
    with Suc.prems have "s1 = s\<lparr> trace := trace s @ map Queries [] \<rparr>" by simp
    then show ?thesis by blast
  next
    case True
    let ?ch = "js_slice hs i (i + concurrentQueryLimit (config s))"
    let ?s1 = "s\<lparr> trace := trace s @ [Queries ?ch] \<rparr>"
    show ?thesis
    proof (cases "promiseAll (map (queryTransactionsByHeight w) ?ch)")
      case (Inl e)
      with Suc.prems True have "s1 = s\<lparr> trace := trace s @ map Queries [?ch] \<rparr>"
        by (simp add: Let_def)
      then show ?thesis by blast
    next
      case (Inr a)
      with Suc.prems True
      have "queryAllLoop n w hs (i + concurrentQueryLimit (config s)) (acc @ [a]) ?s1 = Some (r, s1)"
        by (simp add: Let_def)
      from Suc.IH [OF this] obtain qs where
        "s1 = ?s1\<lparr> trace := trace ?s1 @ map Queries qs \<rparr>" by blast
      then have "s1 = s\<lparr> trace := trace s @ map Queries (?ch # qs) \<rparr>" by simp
      then show ?thesis by blast
    qed
  qed
qed

lemma bloomLoop_frame:
  "bloomLoop n w hs i acc s = Some (r, s1) \<Longrightarrow>
     \<exists>qs. s1 = s\<lparr> trace := trace s @ map Queries qs \<rparr>"
proof (induction n arbitrary: i acc s)
  case 0
  then show ?case by simp
next
  case (Suc n)
  show ?case
  proof (cases "i < int (length hs)")
    case False
    with Suc.prems have "s1 = s\<lparr> trace := trace s @ map Queries [] \<rparr>" by simp
    then show ?thesis by blast
  next
    case True
    let ?ch = "js_slice hs i (i + concurrentQueryLimit (config s))"
    let ?s1 = "s\<lparr> trace := trace s @ [Queries ?ch] \<rparr>"
    show ?thesis
    proof (cases "promiseAll (map (\<lambda>v. queryBlocksAndTxsByBloom w v (listeners (config s))) ?ch)")
      case (Inl e)
      with Suc.prems True have "s1 = s\<lparr> trace := trace s @ map Queries [?ch] \<rparr>"
        by (simp add: Let_def)
      then show ?thesis by blast
    next
      case (Inr a)
      with Suc.prems True
      have "bloomLoop n w hs (i + concurrentQueryLimit (config s)) (acc @ a) ?s1 = Some (r, s1)"
        by (simp add: Let_def)
      from Suc.IH [OF this] obtain qs where
        "s1 = ?s1\<lparr> trace := trace ?s1 @ map Queries qs \<rparr>" by blast
      then have "s1 = s\<lparr> trace := trace s @ map Queries (?ch # qs) \<rparr>" by simp
      then show ?thesis by blast
    qed
  qed
qed

lemma andThen_Some:
  "andThen m f = Some (r, s') \<longleftrightarrow>
     (\<exists>e. m = Some (Inl e, s') \<and> r = Inl e) \<or> (\<exists>x s1. m = Some (Inr x, s1) \<and> f x s1 = Some (r, s'))"
  by (auto simp: andThen_def split: option.splits sum.splits prod.splits)

lemma andThen_Inr:
  "andThen m f = Some (Inr y, s') \<longleftrightarrow> (\<exists>x s1. m = Some (Inr x, s1) \<and> f x s1 = Some (Inr y, s'))"
  by (auto simp: andThen_Some)

lemma queryAllBlocksAndTxs_frame:
  assumes "queryAllBlocksAndTxs fuel w hs ty s = Some (r, s1)"
  shows "\<exists>qs. s1 = s\<lparr> trace := trace s @ map Queries qs \<rparr>"
proof (cases "queryAllLoop fuel w hs 0 [] s")
  case None
  with assms show ?thesis by (simp add: queryAllBlocksAndTxs_def andThen_def)
next
  case (Some p)
  obtain r0 s0 where p: "p = (r0, s0)" by (cases p)
  have "s1 = s0"
    using assms Some p
    by (cases r0) (simp_all add: queryAllBlocksAndTxs_def andThen_def Let_def)
  with Some p queryAllLoop_frame [of fuel w hs 0 "[]" s r0 s0] show ?thesis by simp
qed

lemma queryBlockAndTxsWithBloom_frame:
  assumes "queryBlockAndTxsWithBloom fuel w hs ty s = Some (r, s1)"
  shows "\<exists>qs. s1 = s\<lparr> trace := trace s @ map Queries qs \<rparr>"
proof (cases "bloomLoop fuel w hs 0 [] s")
  case None
  with assms show ?thesis by (simp add: queryBlockAndTxsWithBloom_def andThen_def)
next
  case (Some p)
  obtain r0 s0 where p: "p = (r0, s0)" by (cases p)
  have "s1 = s0"
  proof (cases r0)
    case (Inl e)
    with assms Some p show ?thesis
      by (simp add: queryBlockAndTxsWithBloom_def andThen_def)
  next
    case (Inr got)
    with assms Some p show ?thesis
      by (cases "reduceResults (List.map_filter (\<lambda>v. v) got) (tagsObj (listeners (config s0)))")
         (simp_all add: queryBlockAndTxsWithBloom_def andThen_def)
  qed
  with Some p bloomLoop_frame [of fuel w hs 0 "[]" s r0 s0] show ?thesis by simp
qed

lemma queryBlockAndTxs_frame:
  assumes "queryBlockAndTxs fuel w hs ty s = Some (r, s1)"
  shows "\<exists>qs. s1 = s\<lparr> trace := trace s @ map Queries qs \<rparr>"
proof -
  have nil: "s = s\<lparr> trace := trace s @ map Queries [] \<rparr>" by simp
  consider (all) "scanMode (config s) = ''all''"
    | (listener) "scanMode (config s) \<noteq> ''all''" "scanMode (config s) = ''listener''"
    | (other) "scanMode (config s) \<noteq> ''all''" "scanMode (config s) \<noteq> ''listener''"
    by blast
  then show ?thesis
  proof cases
    case all
    with assms obtain r0 where "queryAllBlocksAndTxs fuel w hs ty s = Some (r0, s1)"
      by (auto simp: queryBlockAndTxs_def andThen_Some)
    then show ?thesis by (rule queryAllBlocksAndTxs_frame)
  next
    case listener
    with assms obtain r0 where "queryBlockAndTxsWithBloom fuel w hs ty s = Some (r0, s1)"
      by (auto simp: queryBlockAndTxs_def andThen_Some)
    then show ?thesis by (rule queryBlockAndTxsWithBloom_frame)
  next
    case other
    with assms have "s1 = s" by (simp add: queryBlockAndTxs_def)
    with nil show ?thesis by blast
  qed
qed

lemma getHeight_Inr:
  "getHeight w s = Some (Inr hs, s1) \<longleftrightarrow>
     (\<exists>st. chainStatus w (statusReads s) = Inr st
        \<and> hs = (BestChainHeight st, LastIrreversibleBlockHeight st)
        \<and> s1 = s\<lparr> statusReads := Suc (statusReads s), trace := trace s @ [ChainStatus (Inr st)] \<rparr>)"
  by (auto simp: getHeight_def Let_def split: sum.splits)

lemma dbInsertCall_Some:
  "dbInsertCall w r s = Some (x, s1) \<Longrightarrow> s1 = s\<lparr> trace := trace s @ [Insert r] \<rparr>"
  by (auto simp: dbInsertCall_def Let_def split: option.splits)

lemma chunksTagged_Queries [simp]:
  "chunksTagged best cur (map Queries qs @ tr) = chunksTagged best cur tr"
  by (induction qs) simp_all

lemma resultTags_tagResult [simp]:
  "resultLIB (tagResult lib best r) = Some lib" "resultBest (tagResult lib best r) = Some best"
  by (simp_all add: resultLIB_def resultBest_def tagResult_def split: fetch_result.splits)


lemma gapLoop_tags:
  "gapLoop n fuel w bestH i cur left s = Some (Inr final, s') \<Longrightarrow>
     \<exists>tr. trace s' = trace s @ tr
        \<and> chunksTagged bestH (Some cur) tr
        \<and> (statusReads s' = statusReads s \<and> final = cur
            \<or> statusReads s < statusReads s'
              \<and> (\<exists>st. chainStatus w (statusReads s' - 1) = Inr st
                       \<and> final = LastIrreversibleBlockHeight st))"
proof (induction n arbitrary: i cur left s)
  case 0
  then show ?case by simp
next
  case (Suc n)
  show ?case
  proof (cases "i \<le> left")
    case False
    with Suc.prems have "s' = s" "final = cur" by simp_all
    then show ?thesis by simp
  next
    case True
    from Suc.prems True obtain indices where
      idx: "newArrayIndices (maxInsert (config s)) = Inr indices"
      by (cases "newArrayIndices (maxInsert (config s))") simp_all
    let ?hs = "filter (\<lambda>v. v \<le> cur) (map (\<lambda>index. startHeight (config s) + i + index) indices)"
    from Suc.prems True idx obtain r s1 u s2 hs s3 where
      q: "queryBlockAndTxs fuel w ?hs GAP s = Some (Inr r, s1)"
      and ins: "dbInsertCall w (tagResult cur bestH r) s1 = Some (Inr u, s2)"
      and gh: "getHeight w s2 = Some (Inr hs, s3)"
      and rec: "gapLoop n fuel w bestH (i + maxInsert (config s3)) (snd hs)
                  (snd hs - startHeight (config s3)) s3 = Some (Inr final, s')"
      by (auto simp: andThen_Inr Let_def)
    from queryBlockAndTxs_frame [OF q] obtain qs where
      s1: "s1 = s\<lparr> trace := trace s @ map Queries qs \<rparr>" by blast
    from dbInsertCall_Some [OF ins] have
      s2: "s2 = s1\<lparr> trace := trace s1 @ [Insert (tagResult cur bestH r)] \<rparr>" .
    from gh obtain st where
      st: "chainStatus w (statusReads s2) = Inr st"
      and hs: "hs = (BestChainHeight st, LastIrreversibleBlockHeight st)"
      and s3: "s3 = s2\<lparr> statusReads := Suc (statusReads s2),
                        trace := trace s2 @ [ChainStatus (Inr st)] \<rparr>"
      by (auto simp: getHeight_Inr)
    from Suc.IH [OF rec] obtain tr where
      t: "trace s' = trace s3 @ tr"
      and tg: "chunksTagged bestH (Some (snd hs)) tr"
      and fin: "statusReads s' = statusReads s3 \<and> final = snd hs
                \<or> statusReads s3 < statusReads s'
                  \<and> (\<exists>st. chainStatus w (statusReads s' - 1) = Inr st
                           \<and> final = LastIrreversibleBlockHeight st)"
      by blast
    let ?tr = "map Queries qs @ Insert (tagResult cur bestH r) # ChainStatus (Inr st) # tr"
    have rd: "statusReads s3 = Suc (statusReads s)" "statusReads s2 = statusReads s"
      using s1 s2 s3 by simp_all
    have a: "trace s' = trace s @ ?tr" using t s1 s2 s3 by simp
    have b: "chunksTagged bestH (Some cur) ?tr" using tg hs by simp
    have c: "statusReads s < statusReads s'
             \<and> (\<exists>st. chainStatus w (statusReads s' - 1) = Inr st
                      \<and> final = LastIrreversibleBlockHeight st)"
      using fin
    proof
      assume "statusReads s' = statusReads s3 \<and> final = snd hs"
      then show ?thesis using rd st hs by simp
    next
      assume "statusReads s3 < statusReads s'
            \<and> (\<exists>st. chainStatus w (statusReads s' - 1) = Inr st
                     \<and> final = LastIrreversibleBlockHeight st)"
      then show ?thesis using rd by simp
    qed
    from a b c show ?thesis by blast
  qed
qed

lemma queryGapHeight_tags:
  assumes run: "queryGapHeight fuel w s = Some (Inr (), s')"
    and first: "chainStatus w (statusReads s) = Inr st0"
    and gap: "startHeight (config s) < LastIrreversibleBlockHeight st0"
  shows "\<exists>tr stF. trace s' = trace s @ ChainStatus (Inr st0) # tr
           \<and> chunksTagged (BestChainHeight st0) (Some (LastIrreversibleBlockHeight st0)) tr
           \<and> statusReads s < statusReads s'
           \<and> chainStatus w (statusReads s' - 1) = Inr stF
           \<and> currentQueries s' = LastIrreversibleBlockHeight stF
           \<and> lastBestHeight s' = Some (BestChainHeight st0)"
proof -
  let ?s1 = "s\<lparr> statusReads := Suc (statusReads s), trace := trace s @ [ChainStatus (Inr st0)] \<rparr>"
  let ?best = "BestChainHeight st0"
  let ?lib = "LastIrreversibleBlockHeight st0"
  have gh: "getHeight w s = Some (Inr (?best, ?lib), ?s1)"
    using first by (simp add: getHeight_def Let_def)
  from run gh gap obtain final s2 where
    loop: "gapLoop fuel fuel w ?best 0 ?lib (?lib - startHeight (config ?s1)) ?s1
           = Some (Inr final, s2)"
    and s': "s' = s2\<lparr> currentQueries := final, lastBestHeight := Some ?best \<rparr>"
    by (auto simp: queryGapHeight_def andThen_def Let_def split: option.splits sum.splits prod.splits)
  from gapLoop_tags [OF loop] obtain tr where
    t: "trace s2 = trace ?s1 @ tr"
    and tg: "chunksTagged ?best (Some ?lib) tr"
    and fin: "statusReads s2 = statusReads ?s1 \<and> final = ?lib
              \<or> statusReads ?s1 < statusReads s2
                \<and> (\<exists>st. chainStatus w (statusReads s2 - 1) = Inr st
                         \<and> final = LastIrreversibleBlockHeight st)"
    by blast
  have a: "trace s' = trace s @ ChainStatus (Inr st0) # tr" using t s' by simp
  have b: "statusReads s < statusReads s'
           \<and> (\<exists>stF. chainStatus w (statusReads s' - 1) = Inr stF
                    \<and> currentQueries s' = LastIrreversibleBlockHeight stF)"
    using fin
  proof
    assume "statusReads s2 = statusReads ?s1 \<and> final = ?lib"
    then show ?thesis using s' first by simp
  next
    assume "statusReads ?s1 < statusReads s2
          \<and> (\<exists>st. chainStatus w (statusReads s2 - 1) = Inr st
                   \<and> final = LastIrreversibleBlockHeight st)"
    then show ?thesis using s' by simp
  qed
  have c: "lastBestHeight s' = Some ?best" using s' by simp
  from a tg b c show ?thesis by blast
qed


lemma gap_stale_run:
  "queryGapHeight 4 (calmWorld [(10, 3), (20, 3), (30, 3)]) (scannerWith gapConfig)
     = Some (Inr (), staleEnd)"
  by (simp add: queryGapHeight_def gapConfig_def getHeight_def queryBlockAndTxs_def
      queryAllBlocksAndTxs_def dbInsertCall_def tagResult_def andThen_def newArrayIndices_def
      eval_nat_numeral js_slice_def Let_def scannerWith_def defaultOptions_def calmWorld_def
      statusAt_def fetched_def blockAt_def txsAt_def staleEnd_def taggedResult_def status_def)

lemma gap_skip_run:
  "queryGapHeight 4 (calmWorld [(4, 3), (4, 3), (4, 4)]) (scannerWith gapConfig)
     = Some (Inr (), skipEnd)"
  by (simp add: queryGapHeight_def gapConfig_def getHeight_def queryBlockAndTxs_def
      queryAllBlocksAndTxs_def dbInsertCall_def tagResult_def andThen_def newArrayIndices_def
      eval_nat_numeral js_slice_def Let_def scannerWith_def defaultOptions_def calmWorld_def
      statusAt_def fetched_def blockAt_def txsAt_def skipEnd_def taggedResult_def status_def)

text \<open>
  Claim C2 fails on the code. Start height 1, chunks of two heights, LIB heights 3, 3, 4
  at the three status reads: the phase completes with the cursor at 4, the LIB height of
  its last status read, after inserting the heights 1, 2 and 3 only. Height 4 lies in the
  interval from the start height to the LIB height at completion and is never inserted;
  the polling loop then plans from height 5.
\<close>

theorem queryGapHeight_misses_height:
  "queryGapHeight 4 (calmWorld [(4, 3), (4, 3), (4, 4)]) (scannerWith gapConfig)
     = Some (Inr (), skipEnd)
   \<and> startHeight (config skipEnd) = 1
   \<and> chainStatus (calmWorld [(4, 3), (4, 3), (4, 4)]) (statusReads skipEnd - 1)
       = Inr (status 4 4)
   \<and> currentQueries skipEnd = 4
   \<and> insertedHeights (trace skipEnd) = [1, 2, 3]
   \<and> 4 \<notin> set (insertedHeights (trace skipEnd))
   \<and> loopHeights skipEnd 6 = Inr [5, 6]"
  using gap_skip_run
  by (simp add: skipEnd_def scannerWith_def gapConfig_def defaultOptions_def calmWorld_def
      statusAt_def status_def insertedHeights_def taggedResult_def fetched_def blockAt_def
      loopHeights_def newArrayIndices_def Let_def eval_nat_numeral)

text \<open>
  Claim C5, as amended. When the gap phase runs to completion on a non-empty gap, every
  inserted chunk carries the LIB height of the latest status read before its fetch and
  the best height of the phase's first status read; at completion \<open>currentQueries\<close> is the
  LIB height of the last status read of the phase and \<open>lastBestHeight\<close> is the best height
  of the first one.
\<close>

theorem queryGapHeight_first_best:
  assumes "queryGapHeight fuel w s = Some (Inr (), s')"
    and "chainStatus w (statusReads s) = Inr st0"
    and "startHeight (config s) < LastIrreversibleBlockHeight st0"
  shows "\<exists>tr stF. trace s' = trace s @ ChainStatus (Inr st0) # tr
           \<and> chunksTagged (BestChainHeight st0) (Some (LastIrreversibleBlockHeight st0)) tr
           \<and> statusReads s < statusReads s'
           \<and> chainStatus w (statusReads s' - 1) = Inr stF
           \<and> currentQueries s' = LastIrreversibleBlockHeight stF
           \<and> lastBestHeight s' = Some (BestChainHeight st0)"
  using assms by (rule queryGapHeight_tags)

theorem queryGapHeight_first_best_witness:
  "queryGapHeight 4 (calmWorld [(10, 3), (20, 3), (30, 3)]) (scannerWith gapConfig)
     = Some (Inr (), staleEnd)
   \<and> chainStatus (calmWorld [(10, 3), (20, 3), (30, 3)]) (statusReads (scannerWith gapConfig))
       = Inr (status 10 3)
   \<and> startHeight (config (scannerWith gapConfig)) < LastIrreversibleBlockHeight (status 10 3)
   \<and> currentQueries staleEnd = 3
   \<and> lastBestHeight staleEnd = Some 10"
proof -
  have h2: "chainStatus (calmWorld [(10, 3), (20, 3), (30, 3)]) (statusReads (scannerWith gapConfig))
            = Inr (status 10 3)"
    by (simp add: calmWorld_def statusAt_def scannerWith_def status_def)
  have h3: "startHeight (config (scannerWith gapConfig)) < LastIrreversibleBlockHeight (status 10 3)"
    by (simp add: scannerWith_def gapConfig_def defaultOptions_def status_def)
  from queryGapHeight_first_best [OF gap_stale_run h2 h3]
  have "lastBestHeight staleEnd = Some 10"
    by (auto simp: status_def)
  moreover have "currentQueries staleEnd = 3" by (simp add: staleEnd_def)
  ultimately show ?thesis using gap_stale_run h2 h3 by simp
qed

text \<open>
  The claim as stated fails: in this run the second chunk is fetched after a status read
  whose best height is 20, and the last status read has best height 30, yet the second
  chunk carries best height 10 and \<open>lastBestHeight\<close> ends as 10.
\<close>

theorem queryGapHeight_stale_best_counterexample:
  "queryGapHeight 4 (calmWorld [(10, 3), (20, 3), (30, 3)]) (scannerWith gapConfig)
     = Some (Inr (), staleEnd)
   \<and> trace staleEnd ! 3 = ChainStatus (Inr (status 20 3))
   \<and> trace staleEnd ! 5 = Insert (taggedResult GAP [3] 3 10)
   \<and> resultBest (taggedResult GAP [3] 3 10) = Some 10
   \<and> statusReads staleEnd = 3
   \<and> chainStatus (calmWorld [(10, 3), (20, 3), (30, 3)]) (statusReads staleEnd - 1)
       = Inr (status 30 3)
   \<and> lastBestHeight staleEnd = Some 10
   \<and> lastBestHeight staleEnd \<noteq> Some (BestChainHeight (status 30 3))"
  using gap_stale_run
  by (simp add: staleEnd_def status_def calmWorld_def statusAt_def resultBest_def
      taggedResult_def)

section \<open>The polling loop\<close>

lemma loopBody_success:
  assumes "loopBody fuel w ch lib s = Some (Inr (), s')"
  shows "(\<exists>qs r. trace s' = trace s @ map Queries qs @ [Insert r]
                \<and> resultLIB r = Some lib \<and> resultBest r = Some ch)
         \<and> currentQueries s' = lib \<and> lastBestHeight s' = Some ch"
proof -
  from assms obtain heights where hs: "loopHeights s ch = Inr heights"
    by (cases "loopHeights s ch") (simp_all add: loopBody_def)
  consider (all) "scanMode (config s) = ''all''"
    | (listener) "scanMode (config s) \<noteq> ''all''" "scanMode (config s) = ''listener''"
    | (other) "scanMode (config s) \<noteq> ''all''" "scanMode (config s) \<noteq> ''listener''"
    by blast
  then show ?thesis
  proof cases
    case all
    let ?L = "filter (\<lambda>h. h \<le> lib) heights"
    let ?B = "filter (\<lambda>h. h > max (toNumber (lastBestHeight s)) lib) heights"
    let ?k = "\<lambda>r s1.
                 case r of
                    ListenerResult l \<Rightarrow> Some (Inl TypeError, s1)
                  | AllResult fresh \<Rightarrow>
                      (let merged = mergeResult (lastLoopResult s1) fresh (length ?L) (length ?B)
                                      lib (lastBestHeight s1);
                           loopHeightsResult = merged\<lparr> LIBHeight := Some lib, bestHeight := Some ch \<rparr>
                       in andThen (dbInsertCall w (AllResult loopHeightsResult) s1)
                            (\<lambda>u s2. Some (Inr (), s2\<lparr> lastLoopResult := loopHeightsResult,
                                                         currentQueries := lib,
                                                         lastBestHeight := Some ch \<rparr>)))"
    have body: "loopBody fuel w ch lib s = andThen (queryBlockAndTxs fuel w (?L @ ?B) LOOP s) ?k"
      by (simp only: loopBody_def hs sum.case all simp_thms if_True Let_def)
    from assms have "andThen (queryBlockAndTxs fuel w (?L @ ?B) LOOP s) ?k = Some (Inr (), s')"
      by (simp only: body)
    then obtain r s1 where
      q: "queryBlockAndTxs fuel w (?L @ ?B) LOOP s = Some (Inr r, s1)"
      and rest: "?k r s1 = Some (Inr (), s')"
      unfolding andThen_Inr by blast
    from queryBlockAndTxs_frame [OF q] obtain qs where
      s1: "s1 = s\<lparr> trace := trace s @ map Queries qs \<rparr>" by blast
    from rest obtain fresh where fr: "r = AllResult fresh" by (cases r) simp_all
    let ?res = "(mergeResult (lastLoopResult s1) fresh (length ?L) (length ?B) lib (lastBestHeight s1))
                  \<lparr> LIBHeight := Some lib, bestHeight := Some ch \<rparr>"
    from rest fr have
      "andThen (dbInsertCall w (AllResult ?res) s1)
         (\<lambda>u s2. Some (Inr (), s2\<lparr> lastLoopResult := ?res, currentQueries := lib,
                                      lastBestHeight := Some ch \<rparr>))
       = Some (Inr (), s')"
      by (simp only: fetch_result.case Let_def)
    then obtain u s2 where
      ins: "dbInsertCall w (AllResult ?res) s1 = Some (Inr u, s2)"
      and eq: "Some (Inr (), s2\<lparr> lastLoopResult := ?res, currentQueries := lib,
                                   lastBestHeight := Some ch \<rparr>)
               = Some (Inr (() :: unit), s')"
      unfolding andThen_Inr by blast
    from eq have
      s': "s' = s2\<lparr> lastLoopResult := ?res, currentQueries := lib, lastBestHeight := Some ch \<rparr>"
      by simp
    from dbInsertCall_Some [OF ins] have
      s2: "s2 = s1\<lparr> trace := trace s1 @ [Insert (AllResult ?res)] \<rparr>" .
    have "trace s' = trace s @ map Queries qs @ [Insert (AllResult ?res)]"
      using s' s2 s1 by simp
    moreover have "resultLIB (AllResult ?res) = Some lib" "resultBest (AllResult ?res) = Some ch"
      by (simp_all add: resultLIB_def resultBest_def)
    ultimately show ?thesis using s' by auto
  next
    case listener
    from assms hs listener obtain r s1 u s2 where
      q: "queryBlockAndTxs fuel w heights LOOP s = Some (Inr r, s1)"
      and ins: "dbInsertCall w (tagResult lib ch r) s1 = Some (Inr u, s2)"
      and s': "s' = s2\<lparr> currentQueries := lib, lastBestHeight := Some ch \<rparr>"
      by (auto simp: loopBody_def Let_def andThen_Inr)
    from queryBlockAndTxs_frame [OF q] obtain qs where
      s1: "s1 = s\<lparr> trace := trace s @ map Queries qs \<rparr>" by blast
    from dbInsertCall_Some [OF ins] have
      s2: "s2 = s1\<lparr> trace := trace s1 @ [Insert (tagResult lib ch r)] \<rparr>" .
    have "trace s' = trace s @ map Queries qs @ [Insert (tagResult lib ch r)]"
      using s' s2 s1 by simp
    then show ?thesis using s' by (auto simp del: append_assoc)
  next
    case other
    with assms hs show ?thesis by (simp add: loopBody_def)
  qed
qed

lemma loopCallback_unfold:
  assumes "chainStatus w (statusReads s) = Inr st"
  shows "loopCallback fuel w s =
     (let s1 = s\<lparr> loopTimes := loopTimes s + 1, statusReads := Suc (statusReads s),
                   trace := trace s @ [ChainStatus (Inr st)] \<rparr>
      in if truthy (lastBestHeight s)
            \<and> lessEq (BestChainHeight st - toNumber (lastBestHeight s)) (loopThreshold (config s))
         then Some (Inr (), s1)
         else loopBody fuel w (BestChainHeight st) (LastIrreversibleBlockHeight st) s1)"
  using assms
  by (simp add: loopCallback_def getHeight_def andThen_def Let_def jumpThisLoop_def)

subsection \<open>The rounding to doubles\<close>

lemma bitLength_pos: "0 < n \<Longrightarrow> bitLength n = Suc (bitLength (n div 2))"
  by (subst bitLength.simps) simp

lemma bitLength_bounds: "0 < n \<Longrightarrow> 2 ^ (bitLength n - 1) \<le> n \<and> n < 2 ^ bitLength n"
proof (induction n rule: bitLength.induct)
  case (1 n)
  show ?case
  proof (cases "n div 2 = 0")
    case True
    with 1(2) have "n = 1" by (simp add: div_eq_0_iff) 
    then show ?thesis by (simp add: bitLength.simps)
  next
    case False
    then have pos: "0 < n div 2" by simp
    from 1(1) [OF _ pos] 1(2)
    have ih: "2 ^ (bitLength (n div 2) - 1) \<le> n div 2" "n div 2 < 2 ^ bitLength (n div 2)"
      by simp_all
    have b: "bitLength n = Suc (bitLength (n div 2))" using 1(2) by (rule bitLength_pos)
    have bp: "0 < bitLength (n div 2)" using pos by (simp add: bitLength_pos)
    then obtain c where c: "bitLength (n div 2) = Suc c" by (cases "bitLength (n div 2)") simp_all
    have lo: "2 ^ Suc c \<le> n" using ih(1) c by simp
    have hi: "n < 2 ^ Suc (Suc c)" using ih(2) c by simp
    show ?thesis using lo hi b c by simp
  qed
qed

lemma pow2_powi: "pow2 k = 2 powi k"
  by (simp add: pow2_def power_int_def power_one_over inverse_eq_divide)

lemma floorLog2_bounds:
  assumes "0 < x"
  shows "pow2 (floorLog2 x) \<le> x \<and> x < pow2 (floorLog2 x + 1)"
proof (cases "1 \<le> x")
  case True
  define n where "n = nat \<lfloor>x\<rfloor>"
  have n1: "0 < n" using True by (simp add: n_def)
  have fl: "of_int \<lfloor>x\<rfloor> \<le> x" "x < of_int \<lfloor>x\<rfloor> + 1" by linarith+
  have "(of_nat n :: rat) = of_int \<lfloor>x\<rfloor>" using True by (simp add: n_def)
  with fl have nx: "of_nat n \<le> x" "x < of_nat n + 1" by simp_all
  from bitLength_bounds [OF n1] have bb: "2 ^ (bitLength n - 1) \<le> n" "n < 2 ^ bitLength n"
    by simp_all
  have bp: "0 < bitLength n" using n1 by (simp add: bitLength_pos)
  have e: "floorLog2 x = int (bitLength n - 1)"
    using True bp by (simp add: floorLog2_def n_def)
  have e1: "floorLog2 x + 1 = int (bitLength n)" using e bp by simp
  have "(2::rat) ^ (bitLength n - 1) \<le> of_nat n"
    using bb(1) by (metis of_nat_le_iff of_nat_numeral of_nat_power)
  then have "(2::rat) ^ (bitLength n - 1) \<le> x" using nx(1) by (rule order_trans)
  then have lo: "pow2 (floorLog2 x) \<le> x" unfolding e by (simp add: pow2_def)
  have "n + 1 \<le> 2 ^ bitLength n" using bb(2) by simp
  then have "(of_nat (n + 1) :: rat) \<le> 2 ^ bitLength n"
    by (metis of_nat_le_iff of_nat_numeral of_nat_power)
  then have "(of_nat n :: rat) + 1 \<le> 2 ^ bitLength n" by simp
  with nx(2) have "x < 2 ^ bitLength n" by (rule less_le_trans)
  then have hi: "x < pow2 (floorLog2 x + 1)" unfolding e1 by (simp add: pow2_def)
  from lo hi show ?thesis ..
next
  case False
  then have x1: "x < 1" by simp
  define y where "y = 1 / x"
  have y1: "1 < y" using assms x1 by (simp add: y_def)
  define n where "n = nat (\<lceil>y\<rceil> - 1)"
  have c2: "2 \<le> \<lceil>y\<rceil>" using y1 by linarith
  have n1: "0 < n" using c2 by (simp add: n_def)
  have ny: "of_nat n < y" "y \<le> of_nat n + 1"
  proof -
    have "of_int (\<lceil>y\<rceil> - 1) < y" by linarith
    moreover have "(of_nat n :: rat) = of_int (\<lceil>y\<rceil> - 1)" using c2 by (simp add: n_def)
    ultimately show "of_nat n < y" by simp
    have "y \<le> of_int \<lceil>y\<rceil>" by linarith
    moreover have "(of_nat n :: rat) + 1 = of_int \<lceil>y\<rceil>" using c2 by (simp add: n_def)
    ultimately show "y \<le> of_nat n + 1" by simp
  qed
  from bitLength_bounds [OF n1] have bb: "2 ^ (bitLength n - 1) \<le> n" "n < 2 ^ bitLength n"
    by simp_all
  have bp: "0 < bitLength n" using n1 by (simp add: bitLength_pos)
  have e: "floorLog2 x = - int (bitLength n)"
    using False by (simp add: floorLog2_def n_def y_def)
  have "n + 1 \<le> 2 ^ bitLength n" using bb(2) by simp
  then have "(of_nat (n + 1) :: rat) \<le> 2 ^ bitLength n"
    by (metis of_nat_le_iff of_nat_numeral of_nat_power)
  then have "(of_nat n :: rat) + 1 \<le> 2 ^ bitLength n" by simp
  with ny(2) have "y \<le> 2 ^ bitLength n" by (rule order_trans)
  then have "1 / 2 ^ bitLength n \<le> x"
    using assms unfolding y_def by (simp add: field_simps)
  then have lo: "pow2 (floorLog2 x) \<le> x"
    unfolding e using bp by (simp add: pow2_def)
  have "(2::rat) ^ (bitLength n - 1) \<le> of_nat n"
    using bb(1) by (metis of_nat_le_iff of_nat_numeral of_nat_power)
  then have "2 ^ (bitLength n - 1) < y" using ny(1) by (rule le_less_trans)
  then have xh: "x < 1 / 2 ^ (bitLength n - 1)"
    using assms unfolding y_def by (simp add: field_simps)
  have "pow2 (floorLog2 x + 1) = 1 / 2 ^ (bitLength n - 1)"
  proof (cases "bitLength n = 1")
    case True
    then show ?thesis unfolding e by (simp add: pow2_def)
  next
    case False
    with bp have "1 < bitLength n" by simp
    then have "nat (int (bitLength n) - 1) = bitLength n - 1" by simp
    with \<open>1 < bitLength n\<close> show ?thesis unfolding e by (simp add: pow2_def)
  qed
  with xh have hi: "x < pow2 (floorLog2 x + 1)" by simp
  from lo hi show ?thesis ..
qed

lemma roundHalfEven_nearest: "\<bar>of_int (roundHalfEven y) - y\<bar> \<le> 1 / 2"
proof -
  have "of_int \<lfloor>y\<rfloor> \<le> y" "y < of_int \<lfloor>y\<rfloor> + 1" by linarith+
  then show ?thesis
    by (auto simp: roundHalfEven_def Let_def abs_le_iff)
qed


lemma pow2_pos: "0 < pow2 k"
  by (simp add: pow2_def)

lemma pow2_mono: "a \<le> b \<Longrightarrow> pow2 a \<le> pow2 b"
  unfolding pow2_powi by (rule power_int_increasing) simp_all

lemma pow2_add: "pow2 (a + b) = pow2 a * pow2 b"
  unfolding pow2_powi by (rule power_int_add) simp

lemma pow2_53: "pow2 53 = 2 ^ 53"
  by (simp add: pow2_def)

text \<open>
  A finite \<open>round64 x\<close> is a multiple \<open>m * 2^k\<close> of the spacing \<open>2^k\<close> of the doubles at
  \<open>x\<close>, with at most 53 significant bits and the full precision outside the subnormal
  range, at most half a spacing away from \<open>x\<close>, and in the range of the doubles.
\<close>

lemma round64_nearest:
  assumes "round64 x = Finite r"
  shows "\<exists>m k. r = of_int m * pow2 k \<and> \<bar>m\<bar> \<le> 2 ^ 53 \<and> - 1074 \<le> k
           \<and> (k = - 1074 \<or> pow2 (k + 52) \<le> \<bar>x\<bar>)
           \<and> \<bar>r - x\<bar> \<le> pow2 k / 2 \<and> \<bar>r\<bar> < 2 ^ 1024"
proof (cases "x = 0")
  case True
  with assms have "r = 0" by (simp add: round64_def)
  with True show ?thesis
    by (intro exI [of _ 0] exI [of _ "- 1074"]) (simp add: pow2_pos less_imp_le)
next
  case False
  define k where "k = max (- 1074) (floorLog2 \<bar>x\<bar> - 52)"
  define y where "y = x / pow2 k"
  define m where "m = roundHalfEven y"
  have r: "r = of_int m * pow2 k" and fin: "\<bar>r\<bar> < 2 ^ 1024"
    using assms False
    by (auto simp: round64_def Let_def k_def y_def m_def split: if_splits)
  have pk: "0 < pow2 k" by (rule pow2_pos)
  have near: "\<bar>of_int m - y\<bar> \<le> 1 / 2" unfolding m_def by (rule roundHalfEven_nearest)
  have ax: "0 < \<bar>x\<bar>" using False by simp
  from floorLog2_bounds [OF ax] have "\<bar>x\<bar> < pow2 (floorLog2 \<bar>x\<bar> + 1)" by simp
  also have "\<dots> \<le> pow2 (k + 53)" by (rule pow2_mono) (simp add: k_def)
  also have "\<dots> = pow2 k * 2 ^ 53" by (simp add: pow2_add pow2_53)
  finally have "\<bar>x\<bar> / pow2 k < 2 ^ 53" using pk by (simp add: field_simps)
  then have ylt: "\<bar>y\<bar> < 2 ^ 53" using pk by (simp add: y_def abs_mult)
  have "\<bar>(of_int m :: rat)\<bar> < 2 ^ 53 + 1" using near ylt by linarith
  then have "(of_int \<bar>m\<bar> :: rat) < of_int (2 ^ 53 + 1)" by simp
  then have "\<bar>m\<bar> < 2 ^ 53 + 1" by (simp only: of_int_less_iff)
  then have mb: "\<bar>m\<bar> \<le> 2 ^ 53" by simp
  have "r - x = (of_int m - y) * pow2 k" using pk by (simp add: r y_def field_simps)
  then have "\<bar>r - x\<bar> = \<bar>of_int m - y\<bar> * pow2 k" using pk by (simp add: abs_mult)
  also have "\<dots> \<le> (1 / 2) * pow2 k"
    using near pk by (intro mult_right_mono) simp_all
  finally have err: "\<bar>r - x\<bar> \<le> pow2 k / 2" by simp
  have kb: "- 1074 \<le> k" by (simp add: k_def)
  have full: "k = - 1074 \<or> pow2 (k + 52) \<le> \<bar>x\<bar>"
  proof (cases "k = - 1074")
    case True
    then show ?thesis ..
  next
    case False
    then have "k + 52 = floorLog2 \<bar>x\<bar>" by (simp add: k_def max_def split: if_splits)
    with floorLog2_bounds [OF ax] show ?thesis by simp
  qed
  from r mb kb full err fin show ?thesis by blast
qed

subsection \<open>The threshold\<close>

lemma floor_rat_numeral: "\<lfloor>numeral a / numeral b :: rat\<rfloor> = numeral a div numeral b"
  by (metis floor_divide_of_int_eq of_int_numeral)

lemma ceiling_rat_numeral: "\<lceil>numeral a / numeral b :: rat\<rceil> = - (- numeral a div numeral b)"
  using ceiling_divide_eq_div [of "numeral a" "numeral b"]
  by (simp add: ceiling_def del: floor_divide_of_int_eq)

lemmas number_eval =
  mathCeil_def div1000_def round64_def floorLog2_def pow2_def roundHalfEven_def
  bitLength.simps Let_def floor_rat_numeral ceiling_rat_numeral

text \<open>The literal \<open>0.6\<close> denotes the double \<open>5404319552844595 / 2^53\<close>, just below 0.6.\<close>

lemma round64_literal: "round64 (6 / 10) = Finite (5404319552844595 / 9007199254740992)"
  by (simp add: number_eval)

lemma default_threshold:
  assumes "interval c = 4000" "minedSpeed c = 2" "loopCoef c = 6 / 10"
  shows "loopThreshold c = Finite 5"
  unfolding loopThreshold_def assms by (simp add: number_eval)

text \<open>
  The rounding is visible in the threshold: with interval 5000, minedSpeed 2.5 and
  loopCoef 0.56 the product computed on doubles is just above 7000, and the threshold
  is 8, where the ceiling of the exact quotient is 7.
\<close>

lemma loopThreshold_rounded:
  assumes "interval c = 5000" "minedSpeed c = 5 / 2" "loopCoef c = 56 / 100"
  shows "loopThreshold c = Finite 8"
    and "\<lceil>interval c * minedSpeed c * loopCoef c / 1000\<rceil> = 7"
  unfolding loopThreshold_def assms by (simp_all add: number_eval)

lemma loopCallback_outcome:
  assumes "chainStatus w (statusReads s) = Inr st"
  shows "(let currentHeight = BestChainHeight st;
              LIB = LastIrreversibleBlockHeight st;
              s1 = s\<lparr> loopTimes := loopTimes s + 1, statusReads := Suc (statusReads s),
                       trace := trace s @ [ChainStatus (Inr st)] \<rparr>
          in ((\<exists>l. lastBestHeight s = Some l \<and> l \<noteq> 0
                    \<and> lessEq (currentHeight - l) (loopThreshold (config s)))
                \<longrightarrow> loopCallback fuel w s = Some (Inr (), s1)
                    \<and> currentQueries s1 = currentQueries s
                    \<and> lastBestHeight s1 = lastBestHeight s
                    \<and> lastLoopResult s1 = lastLoopResult s
                    \<and> queriedHeights (trace s1) = queriedHeights (trace s)
                    \<and> filter isInsert (trace s1) = filter isInsert (trace s))
            \<and> ((lastBestHeight s = None \<or> lastBestHeight s = Some 0
                  \<or> (\<exists>l. lastBestHeight s = Some l
                         \<and> \<not> lessEq (currentHeight - l) (loopThreshold (config s))))
                \<longrightarrow> loopCallback fuel w s = loopBody fuel w currentHeight LIB s1
                    \<and> (\<forall>s'. loopBody fuel w currentHeight LIB s1 = Some (Inr (), s')
                          \<longrightarrow> (\<exists>qs r. trace s' = trace s1 @ map Queries qs @ [Insert r]
                                    \<and> resultLIB r = Some LIB \<and> resultBest r = Some currentHeight)
                              \<and> currentQueries s' = LIB
                              \<and> lastBestHeight s' = Some currentHeight)))
         \<and> (interval (config s) = 4000 \<and> minedSpeed (config s) = 2 \<and> loopCoef (config s) = 6 / 10
              \<longrightarrow> loopThreshold (config s) = Finite 5)"
proof -
  let ?ch = "BestChainHeight st"
  let ?lib = "LastIrreversibleBlockHeight st"
  let ?s1 = "s\<lparr> loopTimes := loopTimes s + 1, statusReads := Suc (statusReads s),
                 trace := trace s @ [ChainStatus (Inr st)] \<rparr>"
  have A: "loopCallback fuel w s = Some (Inr (), ?s1)"
    if "\<exists>l. lastBestHeight s = Some l \<and> l \<noteq> 0
            \<and> lessEq (?ch - l) (loopThreshold (config s))"
    using that by (auto simp: loopCallback_unfold [OF assms] Let_def truthy_def toNumber_def)
  have B: "queriedHeights (trace ?s1) = queriedHeights (trace s)"
    "filter isInsert (trace ?s1) = filter isInsert (trace s)"
    by (simp_all add: queriedHeights_def isInsert_def)
  have C: "loopCallback fuel w s = loopBody fuel w ?ch ?lib ?s1"
    if "lastBestHeight s = None \<or> lastBestHeight s = Some 0
        \<or> (\<exists>l. lastBestHeight s = Some l \<and> \<not> lessEq (?ch - l) (loopThreshold (config s)))"
    using that by (auto simp: loopCallback_unfold [OF assms] Let_def truthy_def toNumber_def)
  have D: "(\<exists>qs r. trace s' = trace ?s1 @ map Queries qs @ [Insert r]
                 \<and> resultLIB r = Some ?lib \<and> resultBest r = Some ?ch)
           \<and> currentQueries s' = ?lib \<and> lastBestHeight s' = Some ?ch"
    if "loopBody fuel w ?ch ?lib ?s1 = Some (Inr (), s')" for s'
    using that by (rule loopBody_success)
  have E: "interval (config s) = 4000 \<and> minedSpeed (config s) = 2 \<and> loopCoef (config s) = 6 / 10
              \<longrightarrow> loopThreshold (config s) = Finite 5"
    using default_threshold by blast
  show ?thesis
    unfolding Let_def
  proof (intro conjI impI allI)
    assume h: "\<exists>l. lastBestHeight s = Some l \<and> l \<noteq> 0
                 \<and> lessEq (?ch - l) (loopThreshold (config s))"
    then show "loopCallback fuel w s = Some (Inr (), ?s1)" by (rule A)
    show "currentQueries ?s1 = currentQueries s" by simp
    show "lastBestHeight ?s1 = lastBestHeight s" by simp
    show "lastLoopResult ?s1 = lastLoopResult s" by simp
    show "queriedHeights (trace ?s1) = queriedHeights (trace s)" by (rule B)
    show "filter isInsert (trace ?s1) = filter isInsert (trace s)" by (rule B)
  next
    assume "lastBestHeight s = None \<or> lastBestHeight s = Some 0
        \<or> (\<exists>l. lastBestHeight s = Some l \<and> \<not> lessEq (?ch - l) (loopThreshold (config s)))"
    then show "loopCallback fuel w s = loopBody fuel w ?ch ?lib ?s1" by (rule C)
  next
    fix s'
    assume "loopBody fuel w ?ch ?lib ?s1 = Some (Inr (), s')"
    from D [OF this]
    show "\<exists>qs r. trace s' = trace ?s1 @ map Queries qs @ [Insert r]
                 \<and> resultLIB r = Some ?lib \<and> resultBest r = Some ?ch"
      and "currentQueries s' = ?lib" and "lastBestHeight s' = Some ?ch"
      by blast+
  next
    assume "interval (config s) = 4000 \<and> minedSpeed (config s) = 2 \<and> loopCoef (config s) = 6 / 10"
    with E show "loopThreshold (config s) = Finite 5" by blast
  qed
qed


text \<open>
  Claim C4, as amended. The threshold is \<open>Math.ceil(interval * minedSpeed * loopCoef / 1000)\<close>
  as the source computes it, on doubles. On a tick whose status call answers: if
  \<open>lastBestHeight\<close> is set and not 0 and the observed best height minus \<open>lastBestHeight\<close>
  is at most the threshold, the tick is skipped: it returns after the status call, with
  no query and no insert, and \<open>currentQueries\<close>, \<open>lastBestHeight\<close> and \<open>lastLoopResult\<close>
  unchanged. If \<open>lastBestHeight\<close> is unset or 0, or the difference is not at most the
  threshold, the tick proceeds to plan, fetch and insert; when it succeeds it has
  inserted one result tagged with the observed heights and moved the cursor. With
  interval 4000, minedSpeed 2 and loopCoef 0.6 the threshold is 5.
\<close>

theorem loopCallback_jump:
  assumes "chainStatus w (statusReads s) = Inr st"
  shows "(let currentHeight = BestChainHeight st;
              LIB = LastIrreversibleBlockHeight st;
              s1 = s\<lparr> loopTimes := loopTimes s + 1, statusReads := Suc (statusReads s),
                       trace := trace s @ [ChainStatus (Inr st)] \<rparr>
          in ((\<exists>l. lastBestHeight s = Some l \<and> l \<noteq> 0
                    \<and> lessEq (currentHeight - l) (loopThreshold (config s)))
                \<longrightarrow> loopCallback fuel w s = Some (Inr (), s1)
                    \<and> currentQueries s1 = currentQueries s
                    \<and> lastBestHeight s1 = lastBestHeight s
                    \<and> lastLoopResult s1 = lastLoopResult s
                    \<and> queriedHeights (trace s1) = queriedHeights (trace s)
                    \<and> filter isInsert (trace s1) = filter isInsert (trace s))
            \<and> ((lastBestHeight s = None \<or> lastBestHeight s = Some 0
                  \<or> (\<exists>l. lastBestHeight s = Some l
                         \<and> \<not> lessEq (currentHeight - l) (loopThreshold (config s))))
                \<longrightarrow> loopCallback fuel w s = loopBody fuel w currentHeight LIB s1
                    \<and> (\<forall>s'. loopBody fuel w currentHeight LIB s1 = Some (Inr (), s')
                          \<longrightarrow> (\<exists>qs r. trace s' = trace s1 @ map Queries qs @ [Insert r]
                                    \<and> resultLIB r = Some LIB \<and> resultBest r = Some currentHeight)
                              \<and> currentQueries s' = LIB
                              \<and> lastBestHeight s' = Some currentHeight)))
         \<and> (interval (config s) = 4000 \<and> minedSpeed (config s) = 2 \<and> loopCoef (config s) = 6 / 10
              \<longrightarrow> loopThreshold (config s) = Finite 5)"
  using assms by (rule loopCallback_outcome)

lemmas tick_eval =
  loopCallback_def loopBody_def loopHeights_def jumpThisLoop_def truthy_def toNumber_def
  getHeight_def queryBlockAndTxs_def queryAllBlocksAndTxs_def dbInsertCall_def mergeResult_def
  andThen_def newArrayIndices_def eval_nat_numeral js_slice_def Let_def statusAt_def
  fetched_def blockAt_def txsAt_def taggedResult_def status_def report_def
  queriedHeights_def isInsert_def default_threshold lessEq_def defaultOptions_def
  scannerWith_def calmWorld_def emptyLoopResult_def

theorem loopCallback_jump_witness:
  "chainStatus (calmWorld [(105, 99)]) (statusReads (cursorAt 98 100)) = Inr (status 105 99)
   \<and> loopCallback 2 (calmWorld [(105, 99)]) (cursorAt 98 100)
       = Some (Inr (), (cursorAt 98 100)\<lparr> loopTimes := 1, statusReads := 1,
                                          trace := [ChainStatus (Inr (status 105 99))] \<rparr>)
   \<and> report (loopCallback 2 (calmWorld [(106, 99)]) (cursorAt 98 100))
       = Some (Inr (), 99, Some 106, [99, 101, 102, 103, 104, 105, 106], 1)"
proof -
  have h: "chainStatus (calmWorld [(105, 99)]) (statusReads (cursorAt 98 100)) = Inr (status 105 99)"
    by (simp add: calmWorld_def statusAt_def cursorAt_def scannerWith_def status_def)
  have skip: "loopCallback 2 (calmWorld [(105, 99)]) (cursorAt 98 100)
       = Some (Inr (), (cursorAt 98 100)\<lparr> loopTimes := 1, statusReads := 1,
                                          trace := [ChainStatus (Inr (status 105 99))] \<rparr>)"
    using loopCallback_jump [OF h, of 2]
    by (simp add: Let_def cursorAt_def scannerWith_def status_def defaultOptions_def
        default_threshold lessEq_def)
  have go: "report (loopCallback 2 (calmWorld [(106, 99)]) (cursorAt 98 100))
       = Some (Inr (), 99, Some 106, [99, 101, 102, 103, 104, 105, 106], 1)"
    by (simp add: tick_eval cursorAt_def)
  from h skip go show ?thesis by simp
qed

text \<open>
  With interval 5000, minedSpeed 2.5 and loopCoef 0.56 a tick that sees the best height
  advance by 8 is skipped, and one that sees it advance by 9 proceeds.
\<close>

lemma tick_at_rounded_threshold:
  "loopCallback 2 (calmWorld [(108, 99)]) (tunedAt 98 100)
     = Some (Inr (), (tunedAt 98 100)\<lparr> loopTimes := 1, statusReads := 1,
                                       trace := [ChainStatus (Inr (status 108 99))] \<rparr>)
   \<and> report (loopCallback 2 (calmWorld [(109, 99)]) (tunedAt 98 100))
       = Some (Inr (), 99, Some 109, [99, 101, 102, 103, 104, 105, 106, 107, 108, 109], 1)"
  by (simp add: tick_eval tunedAt_def loopThreshold_rounded(1))

text \<open>
  The claim as stated fails when \<open>lastBestHeight\<close> is set to 0, which a tick on a node
  at height 0 leaves behind: the next tick sees best height 3, a difference of 3 that is
  below the threshold 5, and still queries the heights 1, 2, 3 and inserts them.
\<close>

theorem loopCallback_zero_best_counterexample:
  "loopCallback 2 (calmWorld [(0, 0), (3, 0)]) (scannerWith defaultOptions)
     = Some (Inr (), zeroTick)
   \<and> lastBestHeight zeroTick = Some 0
   \<and> chainStatus (calmWorld [(0, 0), (3, 0)]) (statusReads zeroTick) = Inr (status 3 0)
   \<and> lessEq (3 - 0) (loopThreshold (config zeroTick))
   \<and> report (loopCallback 2 (calmWorld [(0, 0), (3, 0)]) zeroTick)
       = Some (Inr (), 0, Some 3, [1, 2, 3], 2)"
proof -
  have a: "loopCallback 2 (calmWorld [(0, 0), (3, 0)]) (scannerWith defaultOptions)
            = Some (Inr (), zeroTick)"
    by (simp add: tick_eval zeroTick_def)
  have b: "report (loopCallback 2 (calmWorld [(0, 0), (3, 0)]) zeroTick)
            = Some (Inr (), 0, Some 3, [1, 2, 3], 2)"
    by (simp add: tick_eval zeroTick_def)
  have c: "chainStatus (calmWorld [(0, 0), (3, 0)]) (statusReads zeroTick) = Inr (status 3 0)"
    by (simp add: calmWorld_def statusAt_def zeroTick_def status_def)
  have d: "lessEq (3 - 0) (loopThreshold (config zeroTick))"
    by (simp add: zeroTick_def scannerWith_def defaultOptions_def default_threshold lessEq_def)
  have e: "lastBestHeight zeroTick = Some 0" by (simp add: zeroTick_def)
  from a b c d e show ?thesis by (intro conjI)
qed


lemma loopHeights_regressed:
  assumes "ch \<le> currentQueries s"
  shows "loopHeights s ch = Inr []"
proof (cases "ch - currentQueries s < 0")
  case True
  then show ?thesis by (simp add: loopHeights_def newArrayIndices_def)
next
  case False
  with assms have "ch - currentQueries s = 0" by simp
  then show ?thesis by (simp add: loopHeights_def newArrayIndices_def)
qed

lemma queryBlockAndTxs_Nil:
  assumes "0 < fuel"
    and "scanMode (config s) = ''all'' \<or> scanMode (config s) = ''listener''"
  shows "\<exists>r0. queryBlockAndTxs fuel w [] ty s = Some (Inr r0, s)"
proof -
  from assms(1) obtain n where n: "fuel = Suc n" by (cases fuel) simp_all
  show ?thesis
  proof (cases "scanMode (config s) = ''all''")
    case True
    then show ?thesis
      by (simp add: n queryBlockAndTxs_def queryAllBlocksAndTxs_def andThen_def)
  next
    case False
    with assms(2) have "scanMode (config s) = ''listener''" by simp
    with False show ?thesis
      by (simp add: n queryBlockAndTxs_def queryBlockAndTxsWithBloom_def andThen_def
          List.map_filter_def)
  qed
qed

lemma loopCallback_regressed:
  assumes st: "chainStatus w (statusReads s) = Inr st"
    and nj: "\<not> jumpThisLoop s (BestChainHeight st)"
    and le: "BestChainHeight st \<le> currentQueries s"
    and mode: "scanMode (config s) = ''all'' \<or> scanMode (config s) = ''listener''"
    and fuel: "0 < fuel"
    and sink: "\<forall>r. dbInsert w r = None"
  shows "(let s1 = s\<lparr> loopTimes := loopTimes s + 1, statusReads := Suc (statusReads s),
                       trace := trace s @ [ChainStatus (Inr st)] \<rparr>
          in loopHeights s1 (BestChainHeight st) = Inr []
           \<and> (\<exists>r0. queryBlockAndTxs fuel w [] LOOP s1 = Some (Inr r0, s1))
           \<and> (\<exists>r s'. loopCallback fuel w s = Some (Inr (), s')
                 \<and> trace s' = trace s @ [ChainStatus (Inr st), Insert r]
                 \<and> currentQueries s' = LastIrreversibleBlockHeight st
                 \<and> lastBestHeight s' = Some (BestChainHeight st)))"
proof -
  let ?ch = "BestChainHeight st"
  let ?lib = "LastIrreversibleBlockHeight st"
  let ?s1 = "s\<lparr> loopTimes := loopTimes s + 1, statusReads := Suc (statusReads s),
                 trace := trace s @ [ChainStatus (Inr st)] \<rparr>"
  have hs: "loopHeights ?s1 ?ch = Inr []"
    using le by (intro loopHeights_regressed) simp
  have mode1: "scanMode (config ?s1) = ''all'' \<or> scanMode (config ?s1) = ''listener''"
    using mode by simp
  from queryBlockAndTxs_Nil [OF fuel mode1, of w LOOP] obtain r0 where
    q: "queryBlockAndTxs fuel w [] LOOP ?s1 = Some (Inr r0, ?s1)" by blast
  have cb: "loopCallback fuel w s = loopBody fuel w ?ch ?lib ?s1"
    using nj by (auto simp: loopCallback_unfold [OF st] Let_def jumpThisLoop_def)
  have ins: "dbInsertCall w r ?s1 = Some (Inr (), ?s1\<lparr> trace := trace ?s1 @ [Insert r] \<rparr>)" for r
    using sink by (simp add: dbInsertCall_def Let_def)
  have "\<exists>r s'. loopBody fuel w ?ch ?lib ?s1 = Some (Inr (), s')
                 \<and> trace s' = trace s @ [ChainStatus (Inr st), Insert r]
                 \<and> currentQueries s' = ?lib \<and> lastBestHeight s' = Some ?ch"
  proof (cases "scanMode (config s) = ''all''")
    case True
    then have all: "scanMode (config ?s1) = ''all''" by simp
    from q all obtain fresh where fr: "r0 = AllResult fresh"
      by (auto simp: queryBlockAndTxs_def andThen_Some)
    let ?res = "(mergeResult (lastLoopResult ?s1) fresh 0 0 ?lib (lastBestHeight ?s1))
                  \<lparr> LIBHeight := Some ?lib, bestHeight := Some ?ch \<rparr>"
    have "loopBody fuel w ?ch ?lib ?s1
          = Some (Inr (), ?s1\<lparr> trace := trace ?s1 @ [Insert (AllResult ?res)],
                                lastLoopResult := ?res, currentQueries := ?lib,
                                lastBestHeight := Some ?ch \<rparr>)"
      using hs all q fr ins [of "AllResult ?res"]
      by (simp add: loopBody_def andThen_def Let_def)
    then show ?thesis by auto
  next
    case False
    with mode have li: "scanMode (config ?s1) \<noteq> ''all''" "scanMode (config ?s1) = ''listener''"
      by simp_all
    have "loopBody fuel w ?ch ?lib ?s1
          = Some (Inr (), ?s1\<lparr> trace := trace ?s1 @ [Insert (tagResult ?lib ?ch r0)],
                                currentQueries := ?lib, lastBestHeight := Some ?ch \<rparr>)"
      using hs li q ins [of "tagResult ?lib ?ch r0"]
      by (simp add: loopBody_def andThen_def Let_def)
    then show ?thesis by auto
  qed
  with hs q cb show ?thesis unfolding Let_def by auto
qed

text \<open>
  Claim C10. On a tick that is not skipped and observes a best height at most
  \<open>currentQueries\<close>, in scan mode \<open>all\<close> or \<open>listener\<close> and with a sink that accepts the
  insert, the planned list of heights is empty, the fetch over the empty list returns
  without a query, and the tick completes without error: it inserts one result and
  sets the cursor to the observed heights.
\<close>

theorem loopCallback_empty_plan:
  assumes "chainStatus w (statusReads s) = Inr st"
    and "\<not> jumpThisLoop s (BestChainHeight st)"
    and "BestChainHeight st \<le> currentQueries s"
    and "scanMode (config s) = ''all'' \<or> scanMode (config s) = ''listener''"
    and "0 < fuel"
    and "\<forall>r. dbInsert w r = None"
  shows "(let s1 = s\<lparr> loopTimes := loopTimes s + 1, statusReads := Suc (statusReads s),
                       trace := trace s @ [ChainStatus (Inr st)] \<rparr>
          in loopHeights s1 (BestChainHeight st) = Inr []
           \<and> (\<exists>r0. queryBlockAndTxs fuel w [] LOOP s1 = Some (Inr r0, s1))
           \<and> (\<exists>r s'. loopCallback fuel w s = Some (Inr (), s')
                 \<and> trace s' = trace s @ [ChainStatus (Inr st), Insert r]
                 \<and> currentQueries s' = LastIrreversibleBlockHeight st
                 \<and> lastBestHeight s' = Some (BestChainHeight st)))"
  using assms by (rule loopCallback_regressed)

theorem loopCallback_empty_plan_witness:
  "chainStatus (calmWorld [(50, 40)]) (statusReads (scannerWith (defaultOptions\<lparr> startHeight := 100 \<rparr>)))
     = Inr (status 50 40)
   \<and> \<not> jumpThisLoop (scannerWith (defaultOptions\<lparr> startHeight := 100 \<rparr>)) (BestChainHeight (status 50 40))
   \<and> BestChainHeight (status 50 40) \<le> currentQueries (scannerWith (defaultOptions\<lparr> startHeight := 100 \<rparr>))
   \<and> scanMode (config (scannerWith (defaultOptions\<lparr> startHeight := 100 \<rparr>))) = ''all''
   \<and> dbInsert (calmWorld [(50, 40)]) (taggedResult LOOP [] 40 50) = None
   \<and> report (loopCallback 1 (calmWorld [(50, 40)]) (scannerWith (defaultOptions\<lparr> startHeight := 100 \<rparr>)))
       = Some (Inr (), 40, Some 50, [], 1)"
proof -
  let ?s = "scannerWith (defaultOptions\<lparr> startHeight := 100 \<rparr>)"
  let ?w = "calmWorld [(50, 40)]"
  have h1: "chainStatus ?w (statusReads ?s) = Inr (status 50 40)"
    by (simp add: calmWorld_def statusAt_def scannerWith_def status_def)
  have h2: "\<not> jumpThisLoop ?s (BestChainHeight (status 50 40))"
    by (simp add: jumpThisLoop_def truthy_def scannerWith_def)
  have h3: "BestChainHeight (status 50 40) \<le> currentQueries ?s"
    by (simp add: scannerWith_def status_def)
  have h4: "scanMode (config ?s) = ''all'' \<or> scanMode (config ?s) = ''listener''"
    by (simp add: scannerWith_def defaultOptions_def)
  have h5: "0 < (1 :: nat)" by simp
  have h6: "\<forall>r. dbInsert ?w r = None" by (simp add: calmWorld_def)
  from loopCallback_empty_plan [OF h1 h2 h3 h4 h5 h6] obtain r s' where
    run: "loopCallback 1 ?w ?s = Some (Inr (), s')"
    and tr: "trace s' = trace ?s @ [ChainStatus (Inr (status 50 40)), Insert r]"
    and cq: "currentQueries s' = LastIrreversibleBlockHeight (status 50 40)"
    and lb: "lastBestHeight s' = Some (BestChainHeight (status 50 40))"
    unfolding Let_def by blast
  have "report (loopCallback 1 ?w ?s) = Some (Inr (), 40, Some 50, [], 1)"
    using run tr cq lb
    by (simp add: report_def status_def scannerWith_def queriedHeights_def isInsert_def)
  with h1 h2 h3 h4 h6 show ?thesis
    by (simp add: scannerWith_def defaultOptions_def)
qed

section \<open>start and the failure handler\<close>

lemma start_outcome:
  "start fuel w s = Some (r, s') \<Longrightarrow>
     (case r of
        Inl e \<Rightarrow> scanPhase s' = ERROR \<and> (\<exists>tr. trace s' = tr @ [EndTimer, Destroy])
      | Inr u \<Rightarrow> startBody fuel w s = Some (Inr u, s'))"
  by (auto simp: start_def scanPhase_def split: option.splits sum.splits prod.splits)

lemmas start_eval =
  start_def startBody_def dbInitCall_def queryMissingHeight_def queryGapHeight_def
  queryInLoop_def getHeight_def queryBlockAndTxs_def queryAllBlocksAndTxs_def dbInsertCall_def
  andThen_def eval_nat_numeral js_slice_def Let_def statusAt_def fetched_def status_def
  defaultOptions_def scannerWith_def calmWorld_def emptyLoopResult_def scanPhase_def

text \<open>
  Claim C3 fails on the code for a failure inside a tick. \<open>start\<close> returns normally once
  the timer is started, in phase LOOP. When the status call of the first tick then
  fails, the callback raises that failure to the scheduler: the phase stays LOOP, and
  neither \<open>endTimer\<close> nor \<open>destroy\<close> is called. A failure in the MISSING phase (here a
  rejected insert) does go through the handler of \<open>start\<close>: phase ERROR, \<open>endTimer\<close> and
  \<open>destroy\<close> once each, the failure re-raised.
\<close>

theorem tick_failure_not_handled:
  "start 3 failingTick (scannerWith defaultOptions) = Some (Inr (), loopStarted)
   \<and> scanPhase loopStarted = LOOP
   \<and> loopCallback 3 failingTick loopStarted = Some (Inl (CollaboratorError 7), tickFailed)
   \<and> scanPhase tickFailed = LOOP
   \<and> EndTimer \<notin> set (trace tickFailed)
   \<and> Destroy \<notin> set (trace tickFailed)
   \<and> start 3 fullSink (scannerWith defaultOptions) = Some (Inl (CollaboratorError 9), missingFailed)
   \<and> scanPhase missingFailed = ERROR
   \<and> trace missingFailed
       = [Init, Insert (AllResult (fetched MISSING [])), EndTimer, Destroy]"
proof -
  have a: "start 3 failingTick (scannerWith defaultOptions) = Some (Inr (), loopStarted)"
    by (simp add: start_eval failingTick_def loopStarted_def)
  have b: "loopCallback 3 failingTick loopStarted = Some (Inl (CollaboratorError 7), tickFailed)"
    by (simp add: loopCallback_def getHeight_def andThen_def Let_def failingTick_def
        loopStarted_def tickFailed_def calmWorld_def scannerWith_def)
  have c: "start 3 fullSink (scannerWith defaultOptions)
           = Some (Inl (CollaboratorError 9), missingFailed)"
    by (simp add: start_eval fullSink_def missingFailed_def)
  have d: "scanPhase loopStarted = LOOP" "scanPhase tickFailed = LOOP"
    "EndTimer \<notin> set (trace tickFailed)" "Destroy \<notin> set (trace tickFailed)"
    "scanPhase missingFailed = ERROR"
    "trace missingFailed = [Init, Insert (AllResult (fetched MISSING [])), EndTimer, Destroy]"
    by (simp_all add: scanPhase_def loopStarted_def tickFailed_def missingFailed_def)
  from a b c d show ?thesis by (intro conjI)
qed

section \<open>Fetches that return\<close>

lemma queryAllLoop_more_fuel:
  "queryAllLoop n w hs i acc s = Some x \<Longrightarrow> queryAllLoop (n + k) w hs i acc s = Some x"
proof (induction n arbitrary: i acc s)
  case 0
  then show ?case by simp
next
  case (Suc n)
  show ?case
  proof (cases "i < int (length hs)")
    case False
    with Suc.prems show ?thesis by simp
  next
    case True
    let ?ch = "js_slice hs i (i + concurrentQueryLimit (config s))"
    let ?s1 = "s\<lparr> trace := trace s @ [Queries ?ch] \<rparr>"
    show ?thesis
    proof (cases "promiseAll (map (queryTransactionsByHeight w) ?ch)")
      case (Inl e)
      with Suc.prems True show ?thesis by (simp add: Let_def)
    next
      case (Inr a)
      with Suc.prems True
      have "queryAllLoop n w hs (i + concurrentQueryLimit (config s)) (acc @ [a]) ?s1 = Some x"
        by (simp add: Let_def)
      from Suc.IH [OF this] show ?thesis using True Inr by (simp add: Let_def)
    qed
  qed
qed

lemma queryAllLoop_no_progress:
  "concurrentQueryLimit (config s) \<le> 0 \<Longrightarrow> i \<le> 0 \<Longrightarrow> hs \<noteq> [] \<Longrightarrow>
     queryAllLoop n w hs i acc s \<noteq> Some (Inr r, s')"
proof (induction n arbitrary: i acc s)
  case 0
  then show ?case by simp
next
  case (Suc n)
  have lt: "i < int (length hs)" using Suc.prems(2,3) by (cases hs) simp_all
  let ?ch = "js_slice hs i (i + concurrentQueryLimit (config s))"
  let ?s1 = "s\<lparr> trace := trace s @ [Queries ?ch] \<rparr>"
  show ?case
  proof (cases "promiseAll (map (queryTransactionsByHeight w) ?ch)")
    case (Inl e)
    with lt show ?thesis by (simp add: Let_def)
  next
    case (Inr a)
    have p1: "concurrentQueryLimit (config ?s1) \<le> 0" using Suc.prems(1) by simp
    have p2: "i + concurrentQueryLimit (config s) \<le> 0" using Suc.prems(1,2) by simp
    from Suc.IH [OF p1 p2 Suc.prems(3)] lt Inr show ?thesis by (simp add: Let_def)
  qed
qed

lemma bloomLoop_more_fuel:
  "bloomLoop n w hs i acc s = Some x \<Longrightarrow> bloomLoop (n + k) w hs i acc s = Some x"
proof (induction n arbitrary: i acc s)
  case 0
  then show ?case by simp
next
  case (Suc n)
  show ?case
  proof (cases "i < int (length hs)")
    case False
    with Suc.prems show ?thesis by simp
  next
    case True
    let ?ch = "js_slice hs i (i + concurrentQueryLimit (config s))"
    let ?s1 = "s\<lparr> trace := trace s @ [Queries ?ch] \<rparr>"
    show ?thesis
    proof (cases "promiseAll (map (\<lambda>v. queryBlocksAndTxsByBloom w v (listeners (config s))) ?ch)")
      case (Inl e)
      with Suc.prems True show ?thesis by (simp add: Let_def)
    next
      case (Inr a)
      with Suc.prems True
      have "bloomLoop n w hs (i + concurrentQueryLimit (config s)) (acc @ a) ?s1 = Some x"
        by (simp add: Let_def)
      from Suc.IH [OF this] show ?thesis using True Inr by (simp add: Let_def)
    qed
  qed
qed

lemma bloomLoop_no_progress:
  "concurrentQueryLimit (config s) \<le> 0 \<Longrightarrow> i \<le> 0 \<Longrightarrow> hs \<noteq> [] \<Longrightarrow>
     bloomLoop n w hs i acc s \<noteq> Some (Inr r, s')"
proof (induction n arbitrary: i acc s)
  case 0
  then show ?case by simp
next
  case (Suc n)
  have lt: "i < int (length hs)" using Suc.prems(2,3) by (cases hs) simp_all
  let ?ch = "js_slice hs i (i + concurrentQueryLimit (config s))"
  let ?s1 = "s\<lparr> trace := trace s @ [Queries ?ch] \<rparr>"
  show ?case
  proof (cases "promiseAll (map (\<lambda>v. queryBlocksAndTxsByBloom w v (listeners (config s))) ?ch)")
    case (Inl e)
    with lt show ?thesis by (simp add: Let_def)
  next
    case (Inr a)
    have p1: "concurrentQueryLimit (config ?s1) \<le> 0" using Suc.prems(1) by simp
    have p2: "i + concurrentQueryLimit (config s) \<le> 0" using Suc.prems(1,2) by simp
    from Suc.IH [OF p1 p2 Suc.prems(3)] lt Inr show ?thesis by (simp add: Let_def)
  qed
qed

lemma queryAllBlocksAndTxs_more_fuel:
  "queryAllBlocksAndTxs n w hs ty s = Some x \<Longrightarrow> queryAllBlocksAndTxs (n + k) w hs ty s = Some x"
proof -
  assume a: "queryAllBlocksAndTxs n w hs ty s = Some x"
  then obtain y where y: "queryAllLoop n w hs 0 [] s = Some y"
    by (cases "queryAllLoop n w hs 0 [] s") (simp_all add: queryAllBlocksAndTxs_def andThen_def)
  from queryAllLoop_more_fuel [OF y, of k] a y show ?thesis
    by (simp add: queryAllBlocksAndTxs_def)
qed

lemma queryBlockAndTxsWithBloom_more_fuel:
  "queryBlockAndTxsWithBloom n w hs ty s = Some x \<Longrightarrow>
     queryBlockAndTxsWithBloom (n + k) w hs ty s = Some x"
proof -
  assume a: "queryBlockAndTxsWithBloom n w hs ty s = Some x"
  then obtain y where y: "bloomLoop n w hs 0 [] s = Some y"
    by (cases "bloomLoop n w hs 0 [] s") (simp_all add: queryBlockAndTxsWithBloom_def andThen_def)
  from bloomLoop_more_fuel [OF y, of k] a y show ?thesis
    by (simp add: queryBlockAndTxsWithBloom_def)
qed

lemma queryAllBlocksAndTxs_Inr:
  assumes "queryAllBlocksAndTxs n w hs ty s = Some (Inr res, s')"
  shows "\<exists>chs. queryAllLoop n w hs 0 [] s = Some (Inr chs, s')"
proof (cases "queryAllLoop n w hs 0 [] s")
  case None
  with assms show ?thesis by (simp add: queryAllBlocksAndTxs_def andThen_def)
next
  case (Some p)
  obtain r0 s0 where p: "p = (r0, s0)" by (cases p)
  show ?thesis
  proof (cases r0)
    case (Inl e)
    with assms Some p show ?thesis by (simp add: queryAllBlocksAndTxs_def andThen_def)
  next
    case (Inr chs)
    with assms Some p have "s0 = s'"
      by (simp add: queryAllBlocksAndTxs_def andThen_def Let_def)
    with Some p Inr show ?thesis by simp
  qed
qed

lemma queryBlockAndTxsWithBloom_Inr:
  assumes "queryBlockAndTxsWithBloom n w hs ty s = Some (Inr res, s')"
  shows "\<exists>got. bloomLoop n w hs 0 [] s = Some (Inr got, s')"
proof (cases "bloomLoop n w hs 0 [] s")
  case None
  with assms show ?thesis by (simp add: queryBlockAndTxsWithBloom_def andThen_def)
next
  case (Some p)
  obtain r0 s0 where p: "p = (r0, s0)" by (cases p)
  show ?thesis
  proof (cases r0)
    case (Inl e)
    with assms Some p show ?thesis by (simp add: queryBlockAndTxsWithBloom_def andThen_def)
  next
    case (Inr got)
    with assms Some p have "s0 = s'"
      by (cases "reduceResults (List.map_filter (\<lambda>v. v) got) (tagsObj (listeners (config s0)))")
         (simp_all add: queryBlockAndTxsWithBloom_def andThen_def)
    with Some p Inr show ?thesis by simp
  qed
qed

lemma queryAllBlocksAndTxs_limit:
  assumes "queryAllBlocksAndTxs n w hs ty s = Some (Inr res, s')" and "hs \<noteq> []"
  shows "0 < concurrentQueryLimit (config s)"
proof (rule ccontr)
  assume "\<not> 0 < concurrentQueryLimit (config s)"
  then have le: "concurrentQueryLimit (config s) \<le> 0" by simp
  from queryAllBlocksAndTxs_Inr [OF assms(1)] obtain chs where
    "queryAllLoop n w hs 0 [] s = Some (Inr chs, s')" by blast
  moreover have "queryAllLoop n w hs 0 [] s \<noteq> Some (Inr chs, s')"
    by (rule queryAllLoop_no_progress [OF le _ assms(2)]) simp
  ultimately show False by contradiction
qed

lemma queryBlockAndTxsWithBloom_limit:
  assumes "queryBlockAndTxsWithBloom n w hs ty s = Some (Inr res, s')" and "hs \<noteq> []"
  shows "0 < concurrentQueryLimit (config s)"
proof (rule ccontr)
  assume "\<not> 0 < concurrentQueryLimit (config s)"
  then have le: "concurrentQueryLimit (config s) \<le> 0" by simp
  from queryBlockAndTxsWithBloom_Inr [OF assms(1)] obtain got where
    "bloomLoop n w hs 0 [] s = Some (Inr got, s')" by blast
  moreover have "bloomLoop n w hs 0 [] s \<noteq> Some (Inr got, s')"
    by (rule bloomLoop_no_progress [OF le _ assms(2)]) simp
  ultimately show False by contradiction
qed

lemma queryAllBlocksAndTxs_returns:
  assumes "queryAllBlocksAndTxs fuel w heights type s = Some (Inr res, s')"
  shows "\<exists>chunks answers.
           concat chunks = heights
         \<and> (\<forall>ch\<in>set chunks. ch \<noteq> [] \<and> int (length ch) \<le> concurrentQueryLimit (config s))
         \<and> s' = s\<lparr> trace := trace s @ map Queries chunks \<rparr>
         \<and> rtype res = Some type
         \<and> map (queryTransactionsByHeight w) heights = map Inr answers
         \<and> blocks res = map fst answers
         \<and> txs res = map (\<lambda>a. Some (snd a)) answers
         \<and> ((\<forall>h b t. queryTransactionsByHeight w h = Inr (b, t) \<longrightarrow> Height b = h)
              \<longrightarrow> map Height (blocks res) = heights)"
proof (cases "heights = []")
  case True
  from assms obtain n where n: "fuel = Suc n"
    by (cases fuel) (simp_all add: queryAllBlocksAndTxs_def andThen_def)
  from assms True n have r: "res = \<lparr> blocks = [], txs = [], rtype = Some type,
                                      LIBHeight = None, bestHeight = None \<rparr>" "s' = s"
    by (simp_all add: queryAllBlocksAndTxs_def andThen_def)
  show ?thesis
    using True r by (intro exI [of _ "[]"]) simp
next
  case False
  have c: "0 < concurrentQueryLimit (config s)"
    using assms False by (rule queryAllBlocksAndTxs_limit)
  let ?N = "fuel + Suc (length heights)"
  have big: "queryAllBlocksAndTxs ?N w heights type s = Some (Inr res, s')"
    using assms by (rule queryAllBlocksAndTxs_more_fuel)
  have len: "length heights < ?N" by simp
  from queryAllBlocksAndTxs_outcome [OF c len, of w type] obtain chunks m r where
    cc: "concat chunks = heights"
    and bd: "\<forall>ch\<in>set chunks. ch \<noteq> [] \<and> int (length ch) \<le> concurrentQueryLimit (config s)"
    and run: "queryAllBlocksAndTxs ?N w heights type s
              = Some (r, s\<lparr> trace := trace s @ map Queries (take m chunks) \<rparr>)"
    and out: "(case r of
                 Inl e \<Rightarrow> \<exists>h\<in>set heights. queryTransactionsByHeight w h = Inl e
               | Inr res \<Rightarrow> m = length chunks \<and> rtype res = Some type
                   \<and> (\<exists>answers.
                         map (queryTransactionsByHeight w) heights = map Inr answers
                         \<and> blocks res = map fst answers
                         \<and> txs res = map (\<lambda>a. Some (snd a)) answers
                         \<and> ((\<forall>h b t. queryTransactionsByHeight w h = Inr (b, t) \<longrightarrow> Height b = h)
                              \<longrightarrow> map Height (blocks res) = heights)))"
    by blast
  from big run have r: "r = Inr res"
    and s': "s' = s\<lparr> trace := trace s @ map Queries (take m chunks) \<rparr>"
    by simp_all
  have out': "m = length chunks \<and> rtype res = Some type
                   \<and> (\<exists>answers.
                         map (queryTransactionsByHeight w) heights = map Inr answers
                         \<and> blocks res = map fst answers
                         \<and> txs res = map (\<lambda>a. Some (snd a)) answers
                         \<and> ((\<forall>h b t. queryTransactionsByHeight w h = Inr (b, t) \<longrightarrow> Height b = h)
                              \<longrightarrow> map Height (blocks res) = heights))"
    using out unfolding r by (simp only: sum.case)
  then have m: "m = length chunks" by blast
  from out' obtain answers where
    "rtype res = Some type"
    "map (queryTransactionsByHeight w) heights = map Inr answers"
    "blocks res = map fst answers"
    "txs res = map (\<lambda>a. Some (snd a)) answers"
    "(\<forall>h b t. queryTransactionsByHeight w h = Inr (b, t) \<longrightarrow> Height b = h)
       \<longrightarrow> map Height (blocks res) = heights"
    by blast
  with cc bd s' m show ?thesis
    by (intro exI [of _ chunks] exI [of _ answers]) simp
qed

text \<open>
  Claim C7. Whenever the ALL-mode fetcher returns a result for a list of heights, it has
  issued its queries in consecutive non-empty chunks of at most \<open>concurrentQueryLimit\<close>
  heights, one chunk after the other, whose concatenation is the input list; \<open>blocks\<close> and
  \<open>txs\<close> of the result are, position by position, the two parts of the node's answer for
  the height at that position of the input, and when the node answers every height with
  a block of that height, the blocks' heights are the input list. With a positive
  \<open>concurrentQueryLimit\<close> the fetcher ends on every list: it returns such a result or
  raises the failure of a query of the list.
\<close>

theorem queryAllBlocksAndTxs_chunks:
  "(\<forall>res s'. queryAllBlocksAndTxs fuel w heights type s = Some (Inr res, s')
      \<longrightarrow> (\<exists>chunks answers.
             concat chunks = heights
           \<and> (\<forall>ch\<in>set chunks. ch \<noteq> [] \<and> int (length ch) \<le> concurrentQueryLimit (config s))
           \<and> s' = s\<lparr> trace := trace s @ map Queries chunks \<rparr>
           \<and> rtype res = Some type
           \<and> map (queryTransactionsByHeight w) heights = map Inr answers
           \<and> blocks res = map fst answers
           \<and> txs res = map (\<lambda>a. Some (snd a)) answers
           \<and> ((\<forall>h b t. queryTransactionsByHeight w h = Inr (b, t) \<longrightarrow> Height b = h)
                \<longrightarrow> map Height (blocks res) = heights)))
   \<and> (0 < concurrentQueryLimit (config s) \<and> length heights < fuel
      \<longrightarrow> (\<exists>r s'. queryAllBlocksAndTxs fuel w heights type s = Some (r, s')
             \<and> (\<forall>e. r = Inl e \<longrightarrow> (\<exists>h\<in>set heights. queryTransactionsByHeight w h = Inl e))))"
proof (intro conjI allI impI)
  fix res s'
  assume "queryAllBlocksAndTxs fuel w heights type s = Some (Inr res, s')"
  then show "\<exists>chunks answers.
             concat chunks = heights
           \<and> (\<forall>ch\<in>set chunks. ch \<noteq> [] \<and> int (length ch) \<le> concurrentQueryLimit (config s))
           \<and> s' = s\<lparr> trace := trace s @ map Queries chunks \<rparr>
           \<and> rtype res = Some type
           \<and> map (queryTransactionsByHeight w) heights = map Inr answers
           \<and> blocks res = map fst answers
           \<and> txs res = map (\<lambda>a. Some (snd a)) answers
           \<and> ((\<forall>h b t. queryTransactionsByHeight w h = Inr (b, t) \<longrightarrow> Height b = h)
                \<longrightarrow> map Height (blocks res) = heights)"
    by (rule queryAllBlocksAndTxs_returns)
next
  assume "0 < concurrentQueryLimit (config s) \<and> length heights < fuel"
  then have c: "0 < concurrentQueryLimit (config s)" and len: "length heights < fuel"
    by simp_all
  from queryAllBlocksAndTxs_outcome [OF c len, of w type] obtain chunks m r where
    run: "queryAllBlocksAndTxs fuel w heights type s
          = Some (r, s\<lparr> trace := trace s @ map Queries (take m chunks) \<rparr>)"
    and out: "(case r of
                 Inl e \<Rightarrow> \<exists>h\<in>set heights. queryTransactionsByHeight w h = Inl e
               | Inr res \<Rightarrow> m = length chunks \<and> rtype res = Some type
                   \<and> (\<exists>answers.
                         map (queryTransactionsByHeight w) heights = map Inr answers
                         \<and> blocks res = map fst answers
                         \<and> txs res = map (\<lambda>a. Some (snd a)) answers
                         \<and> ((\<forall>h b t. queryTransactionsByHeight w h = Inr (b, t) \<longrightarrow> Height b = h)
                              \<longrightarrow> map Height (blocks res) = heights)))"
    by blast
  have "\<forall>e. r = Inl e \<longrightarrow> (\<exists>h\<in>set heights. queryTransactionsByHeight w h = Inl e)"
  proof (intro allI impI)
    fix e assume "r = Inl e"
    with out show "\<exists>h\<in>set heights. queryTransactionsByHeight w h = Inl e"
      by (simp only: sum.case)
  qed
  with run
  show "\<exists>r s'. queryAllBlocksAndTxs fuel w heights type s = Some (r, s')
             \<and> (\<forall>e. r = Inl e \<longrightarrow> (\<exists>h\<in>set heights. queryTransactionsByHeight w h = Inl e))"
    by blast
qed

theorem queryAllBlocksAndTxs_chunks_witness:
  "0 < concurrentQueryLimit (config (scannerWith (defaultOptions\<lparr> concurrentQueryLimit := 2 \<rparr>)))
   \<and> length [1, 2, 3, 4, 5 :: int] < 6
   \<and> queryAllBlocksAndTxs 6 (calmWorld [(1, 1)]) [1, 2, 3, 4, 5] LOOP
         (scannerWith (defaultOptions\<lparr> concurrentQueryLimit := 2 \<rparr>))
       = Some (Inr (fetched LOOP [1, 2, 3, 4, 5]),
               (scannerWith (defaultOptions\<lparr> concurrentQueryLimit := 2 \<rparr>))
                 \<lparr> trace := [Queries [1, 2], Queries [3, 4], Queries [5]] \<rparr>)
   \<and> blocks (fetched LOOP [1, 2, 3, 4, 5]) = map blockAt [1, 2, 3, 4, 5]
   \<and> txs (fetched LOOP [1, 2, 3, 4, 5]) = map txsAt [1, 2, 3, 4, 5]"
proof -
  let ?s = "scannerWith (defaultOptions\<lparr> concurrentQueryLimit := 2 \<rparr>)"
  have h1: "0 < concurrentQueryLimit (config ?s)"
    by (simp add: scannerWith_def)
  have h2: "length [1, 2, 3, 4, 5 :: int] < 6" by simp
  have ev: "queryAllBlocksAndTxs 6 (calmWorld [(1, 1)]) [1, 2, 3, 4, 5] LOOP ?s
       = Some (Inr (fetched LOOP [1, 2, 3, 4, 5]),
               ?s\<lparr> trace := [Queries [1, 2], Queries [3, 4], Queries [5]] \<rparr>)"
    by (simp add: queryAllBlocksAndTxs_def andThen_def eval_nat_numeral js_slice_def Let_def
        scannerWith_def defaultOptions_def calmWorld_def fetched_def blockAt_def txsAt_def)
  have fe: "blocks (fetched LOOP [1, 2, 3, 4, 5]) = map blockAt [1, 2, 3, 4, 5]"
    "txs (fetched LOOP [1, 2, 3, 4, 5]) = map txsAt [1, 2, 3, 4, 5]"
    by (simp_all add: fetched_def)
  show ?thesis
    using queryAllBlocksAndTxs_chunks [of 6 "calmWorld [(1, 1)]" "[1, 2, 3, 4, 5]" LOOP ?s]
      h1 h2 ev fe
    by - (intro conjI, assumption+)
qed






section \<open>Missing-height backfill\<close>

declare tailChunks.simps [simp del]

lemma tailChunks_short: "0 < m \<Longrightarrow> length xs < m \<Longrightarrow> tailChunks m xs = [xs]"
  by (subst tailChunks.simps) simp

lemma tailChunks_step:
  "0 < m \<Longrightarrow> m \<le> length xs \<Longrightarrow> tailChunks m xs = take m xs # tailChunks m (drop m xs)"
  by (subst tailChunks.simps) simp

lemma concat_tailChunks: "0 < m \<Longrightarrow> concat (tailChunks m xs) = xs"
proof (induction m xs rule: tailChunks.induct)
  case (1 m xs)
  show ?case
  proof (cases "length xs < m")
    case True
    with 1(2) show ?thesis by (simp add: tailChunks_short)
  next
    case False
    then have ge: "m \<le> length xs" by simp
    have "concat (tailChunks m (drop m xs)) = drop m xs"
      using 1(1) [OF _ False] 1(2) by simp
    then show ?thesis by (simp add: tailChunks_step [OF 1(2) ge])
  qed
qed

lemma length_tailChunks: "0 < m \<Longrightarrow> length (tailChunks m xs) = length xs div m + 1"
proof (induction m xs rule: tailChunks.induct)
  case (1 m xs)
  show ?case
  proof (cases "length xs < m")
    case True
    with 1(2) show ?thesis by (simp add: tailChunks_short)
  next
    case False
    then have ge: "m \<le> length xs" by simp
    have ih: "length (tailChunks m (drop m xs)) = (length xs - m) div m + 1"
      using 1(1) [OF _ False] 1(2) by simp
    have "length xs div m = Suc ((length xs - m) div m)"
      using 1(2) ge by (rule le_div_geq)
    then show ?thesis by (simp add: tailChunks_step [OF 1(2) ge] ih)
  qed
qed

lemma last_tailChunks: "0 < m \<Longrightarrow> last (tailChunks m xs) = [] \<longleftrightarrow> m dvd length xs"
proof (induction m xs rule: tailChunks.induct)
  case (1 m xs)
  show ?case
  proof (cases "length xs < m")
    case True
    have "m dvd length xs \<longleftrightarrow> xs = []"
      using True by (auto dest: dvd_imp_le)
    then show ?thesis
      using True 1(2) by (simp add: tailChunks_short)
  next
    case False
    then have ge: "m \<le> length xs" by simp
    have ih: "last (tailChunks m (drop m xs)) = [] \<longleftrightarrow> m dvd (length xs - m)"
      using 1(1) [OF _ False] 1(2) by simp
    have ne: "tailChunks m (drop m xs) \<noteq> []"
      using length_tailChunks [OF 1(2), of "drop m xs"] by auto
    have dv: "m dvd (length xs - m) \<longleftrightarrow> m dvd length xs"
      using ge by (metis dvd_add_triv_right_iff le_add_diff_inverse2)
    show ?thesis
      using ne by (simp add: tailChunks_step [OF 1(2) ge] ih dv)
  qed
qed

lemma tailChunks_bounded: "0 < m \<Longrightarrow> ch \<in> set (tailChunks m xs) \<Longrightarrow> length ch \<le> m"
proof (induction m xs rule: tailChunks.induct)
  case (1 m xs)
  show ?case
  proof (cases "length xs < m")
    case True
    with 1(2,3) show ?thesis by (simp add: tailChunks_short)
  next
    case False
    then have ge: "m \<le> length xs" by simp
    from 1(3) have "ch = take m xs \<or> ch \<in> set (tailChunks m (drop m xs))"
      by (simp add: tailChunks_step [OF 1(2) ge])
    then show ?thesis
    proof
      assume "ch = take m xs"
      then show ?thesis by simp
    next
      assume "ch \<in> set (tailChunks m (drop m xs))"
      with 1(1) [OF _ False] 1(2) show ?thesis by simp
    qed
  qed
qed

lemma andThen_cong_state:
  "(\<And>x s1. m = Some (Inr x, s1) \<Longrightarrow> f x s1 = g x s1) \<Longrightarrow> andThen m f = andThen m g"
  by (auto simp: andThen_def split: option.splits sum.splits prod.splits)

lemma andThen_mono:
  assumes "andThen m f = Some x"
    and "\<And>y s1. m = Some (Inr y, s1) \<Longrightarrow> f y s1 = Some x \<Longrightarrow> g y s1 = Some x"
  shows "andThen m g = Some x"
  using assms by (auto simp: andThen_def split: option.splits sum.splits prod.splits)

lemma dbInsertCall_outcome:
  "\<exists>x. dbInsertCall w r s = Some (x, s\<lparr> trace := trace s @ [Insert r] \<rparr>)"
  by (simp add: dbInsertCall_def Let_def split: option.splits)


lemma queryAllBlocksAndTxs_total:
  assumes "0 < concurrentQueryLimit (config s)" and "length hs < fuel"
  shows "\<exists>r qs. queryAllBlocksAndTxs fuel w hs ty s
                  = Some (r, s\<lparr> trace := trace s @ map Queries qs \<rparr>)
           \<and> ((\<exists>x. r = Inr x) \<longrightarrow> concat qs = hs)"
proof -
  from queryAllBlocksAndTxs_outcome [OF assms, of w ty] obtain chunks m r where
    cc: "concat chunks = hs"
    and run: "queryAllBlocksAndTxs fuel w hs ty s
              = Some (r, s\<lparr> trace := trace s @ map Queries (take m chunks) \<rparr>)"
    and out: "\<And>res. r = Inr res \<Longrightarrow> m = length chunks"
    by (elim exE conjE) (simp split: sum.splits)
  have "(\<exists>x. r = Inr x) \<longrightarrow> concat (take m chunks) = hs"
    using out cc by auto
  with run show ?thesis by blast
qed

lemma queryBlockAndTxsWithBloom_total:
  assumes "0 < concurrentQueryLimit (config s)" and "length hs < fuel"
  shows "\<exists>r qs. queryBlockAndTxsWithBloom fuel w hs ty s
                  = Some (r, s\<lparr> trace := trace s @ map Queries qs \<rparr>)
           \<and> ((\<exists>x. r = Inr x) \<longrightarrow> concat qs = hs)"
proof -
  from queryBlockAndTxsWithBloom_outcome [OF assms, of w ty] obtain r qs where
    run: "queryBlockAndTxsWithBloom fuel w hs ty s
          = Some (r, s\<lparr> trace := trace s @ map Queries qs \<rparr>)"
    and out: "\<And>res. r = Inr res \<Longrightarrow> concat qs = hs"
    unfolding Let_def by (elim exE conjE) (simp split: sum.splits)
  have "(\<exists>x. r = Inr x) \<longrightarrow> concat qs = hs"
    using out by auto
  with run show ?thesis by blast
qed

lemma queryBlockAndTxs_total:
  assumes "0 < concurrentQueryLimit (config s)" and "length hs < fuel"
  shows "\<exists>r qs. queryBlockAndTxs fuel w hs ty s = Some (r, s\<lparr> trace := trace s @ map Queries qs \<rparr>)
           \<and> ((\<exists>x. r = Inr x) \<longrightarrow> concat qs = hs)"
proof -
  consider (all) "scanMode (config s) = ''all''"
    | (listener) "scanMode (config s) \<noteq> ''all''" "scanMode (config s) = ''listener''"
    | (other) "scanMode (config s) \<noteq> ''all''" "scanMode (config s) \<noteq> ''listener''"
    by blast
  then show ?thesis
  proof cases
    case all
    from queryAllBlocksAndTxs_total [OF assms, of w ty] obtain r qs where
      run: "queryAllBlocksAndTxs fuel w hs ty s
            = Some (r, s\<lparr> trace := trace s @ map Queries qs \<rparr>)"
      and out: "(\<exists>x. r = Inr x) \<longrightarrow> concat qs = hs"
      by blast
    show ?thesis
    proof (cases r)
      case (Inl e)
      with run all have "queryBlockAndTxs fuel w hs ty s
            = Some (Inl e, s\<lparr> trace := trace s @ map Queries qs \<rparr>)"
        by (simp add: queryBlockAndTxs_def andThen_def)
      then show ?thesis by blast
    next
      case (Inr res)
      with run all have "queryBlockAndTxs fuel w hs ty s
            = Some (Inr (AllResult res), s\<lparr> trace := trace s @ map Queries qs \<rparr>)"
        by (simp add: queryBlockAndTxs_def andThen_def)
      moreover have "concat qs = hs" using out Inr by simp
      ultimately show ?thesis by blast
    qed
  next
    case listener
    from queryBlockAndTxsWithBloom_total [OF assms, of w ty] obtain r qs where
      run: "queryBlockAndTxsWithBloom fuel w hs ty s
            = Some (r, s\<lparr> trace := trace s @ map Queries qs \<rparr>)"
      and out: "(\<exists>x. r = Inr x) \<longrightarrow> concat qs = hs"
      by blast
    show ?thesis
    proof (cases r)
      case (Inl e)
      with run listener have "queryBlockAndTxs fuel w hs ty s
            = Some (Inl e, s\<lparr> trace := trace s @ map Queries qs \<rparr>)"
        by (simp add: queryBlockAndTxs_def andThen_def)
      then show ?thesis by blast
    next
      case (Inr res)
      with run listener have "queryBlockAndTxs fuel w hs ty s
            = Some (Inr (ListenerResult res), s\<lparr> trace := trace s @ map Queries qs \<rparr>)"
        by (simp add: queryBlockAndTxs_def andThen_def)
      moreover have "concat qs = hs" using out Inr by simp
      ultimately show ?thesis by blast
    qed
  next
    case other
    then have "queryBlockAndTxs fuel w hs ty s
               = Some (Inl InvalidScanMode, s\<lparr> trace := trace s @ map Queries [] \<rparr>)"
      by (simp add: queryBlockAndTxs_def)
    then show ?thesis by blast
  qed
qed

lemma queryBlockAndTxsWithBloom_queries:
  assumes "queryBlockAndTxsWithBloom fuel w hs ty s = Some (Inr res, s')"
  shows "\<exists>qs. s' = s\<lparr> trace := trace s @ map Queries qs \<rparr> \<and> concat qs = hs"
proof (cases "hs = []")
  case True
  from queryBlockAndTxsWithBloom_Inr [OF assms] obtain got where
    "bloomLoop fuel w hs 0 [] s = Some (Inr got, s')" by blast
  with True have "s' = s" by (cases fuel) simp_all
  with True show ?thesis by (intro exI [of _ "[]"]) simp
next
  case False
  have c: "0 < concurrentQueryLimit (config s)"
    by (rule queryBlockAndTxsWithBloom_limit [OF assms False])
  have big: "length hs < fuel + Suc (length hs)" by simp
  from queryBlockAndTxsWithBloom_more_fuel [OF assms, of "Suc (length hs)"]
  have run: "queryBlockAndTxsWithBloom (fuel + Suc (length hs)) w hs ty s = Some (Inr res, s')" .
  from queryBlockAndTxsWithBloom_total [OF c big, of w ty] obtain r qs where
    "queryBlockAndTxsWithBloom (fuel + Suc (length hs)) w hs ty s
       = Some (r, s\<lparr> trace := trace s @ map Queries qs \<rparr>)"
    and "(\<exists>x. r = Inr x) \<longrightarrow> concat qs = hs"
    by blast
  with run show ?thesis by auto
qed

lemma queryBlockAndTxs_queries:
  assumes "queryBlockAndTxs fuel w hs ty s = Some (Inr r, s1)"
  shows "\<exists>qs. s1 = s\<lparr> trace := trace s @ map Queries qs \<rparr> \<and> concat qs = hs"
proof -
  consider (all) "scanMode (config s) = ''all''"
    | (listener) "scanMode (config s) \<noteq> ''all''" "scanMode (config s) = ''listener''"
    | (other) "scanMode (config s) \<noteq> ''all''" "scanMode (config s) \<noteq> ''listener''"
    by blast
  then show ?thesis
  proof cases
    case all
    with assms obtain r0 where "queryAllBlocksAndTxs fuel w hs ty s = Some (Inr r0, s1)"
      by (auto simp: queryBlockAndTxs_def andThen_Inr)
    from queryAllBlocksAndTxs_returns [OF this] show ?thesis by blast
  next
    case listener
    with assms obtain r0 where "queryBlockAndTxsWithBloom fuel w hs ty s = Some (Inr r0, s1)"
      by (auto simp: queryBlockAndTxs_def andThen_Inr)
    then show ?thesis by (rule queryBlockAndTxsWithBloom_queries)
  next
    case other
    with assms show ?thesis by (simp add: queryBlockAndTxs_def)
  qed
qed


lemma queriedHeights_append [simp]:
  "queriedHeights (a @ b) = queriedHeights a @ queriedHeights b"
  by (simp add: queriedHeights_def)

lemma queriedHeights_Queries [simp]: "queriedHeights (map Queries qs) = concat qs"
  by (induction qs) (simp_all add: queriedHeights_def)

lemma queriedHeights_Insert [simp]: "queriedHeights (Insert x # tr) = queriedHeights tr"
  by (simp add: queriedHeights_def)

lemma queriedHeights_Nil [simp]: "queriedHeights [] = []"
  by (simp add: queriedHeights_def)

lemma filter_isInsert_Queries [simp]: "filter isInsert (map Queries qs) = []"
  by (induction qs) (simp_all add: isInsert_def)

lemma isInsert_Insert [simp]: "isInsert (Insert x)"
  by (simp add: isInsert_def)

lemma insertChunks_outcome:
  assumes "0 < concurrentQueryLimit (config s)" and "\<forall>ch\<in>set chs. length ch < fuel"
  shows "\<exists>r tr. insertChunks fuel w ty chs s = Some (r, s\<lparr> trace := trace s @ tr \<rparr>)
           \<and> (r = Inr () \<longrightarrow> length (filter isInsert tr) = length chs
                              \<and> queriedHeights tr = concat chs)"
  using assms
proof (induction chs arbitrary: s)
  case Nil
  have "insertChunks fuel w ty [] s = Some (Inr (), s\<lparr> trace := trace s @ [] \<rparr>)" by simp
  then show ?case
    by (intro exI [of _ "Inr ()"] exI [of _ "[]"]) (simp add: queriedHeights_def)
next
  case (Cons ch chs)
  have lch: "length ch < fuel" using Cons.prems(2) by simp
  from queryBlockAndTxs_total [OF Cons.prems(1) lch, of w ty] obtain r1 qs where
    run1: "queryBlockAndTxs fuel w ch ty s = Some (r1, s\<lparr> trace := trace s @ map Queries qs \<rparr>)"
    and out1: "(\<exists>x. r1 = Inr x) \<longrightarrow> concat qs = ch"
    by blast
  let ?s1 = "s\<lparr> trace := trace s @ map Queries qs \<rparr>"
  show ?case
  proof (cases r1)
    case (Inl e)
    with run1 have "insertChunks fuel w ty (ch # chs) s
                    = Some (Inl e, s\<lparr> trace := trace s @ map Queries qs \<rparr>)"
      by (simp add: andThen_def)
    then show ?thesis by blast
  next
    case (Inr x)
    with out1 have cq: "concat qs = ch" by simp
    from dbInsertCall_outcome [of w x ?s1] obtain y where
      ins: "dbInsertCall w x ?s1 = Some (y, ?s1\<lparr> trace := trace ?s1 @ [Insert x] \<rparr>)"
      by blast
    let ?s2 = "?s1\<lparr> trace := trace ?s1 @ [Insert x] \<rparr>"
    show ?thesis
    proof (cases y)
      case (Inl e)
      with run1 Inr ins have "insertChunks fuel w ty (ch # chs) s
            = Some (Inl e, s\<lparr> trace := trace s @ (map Queries qs @ [Insert x]) \<rparr>)"
        by (simp add: andThen_def)
      then show ?thesis by blast
    next
      case y: (Inr u)
      have p1: "0 < concurrentQueryLimit (config ?s2)" using Cons.prems(1) by simp
      have p2: "\<forall>ch\<in>set chs. length ch < fuel" using Cons.prems(2) by simp
      from Cons.IH [OF p1 p2] obtain r tr where
        run2: "insertChunks fuel w ty chs ?s2 = Some (r, ?s2\<lparr> trace := trace ?s2 @ tr \<rparr>)"
        and out2: "r = Inr () \<longrightarrow> length (filter isInsert tr) = length chs
                                     \<and> queriedHeights tr = concat chs"
        by blast
      have "insertChunks fuel w ty (ch # chs) s
            = Some (r, s\<lparr> trace := trace s @ (map Queries qs @ [Insert x] @ tr) \<rparr>)"
        using run1 Inr ins y run2 by (simp add: andThen_def)
      moreover have "r = Inr () \<longrightarrow>
          length (filter isInsert (map Queries qs @ [Insert x] @ tr)) = length (ch # chs)
          \<and> queriedHeights (map Queries qs @ [Insert x] @ tr) = concat (ch # chs)"
        using out2 cq by simp
      ultimately show ?thesis by blast
    qed
  qed
qed

lemma insertChunks_returns:
  assumes "insertChunks fuel w ty chs s = Some (Inr (), s')"
  shows "\<exists>tr. s' = s\<lparr> trace := trace s @ tr \<rparr>
           \<and> length (filter isInsert tr) = length chs
           \<and> queriedHeights tr = concat chs"
  using assms
proof (induction chs arbitrary: s)
  case Nil
  then have "s' = s\<lparr> trace := trace s @ [] \<rparr>" by simp
  then show ?case by (intro exI [of _ "[]"]) simp
next
  case (Cons ch chs)
  from Cons.prems obtain x s1 u s2 where
    q: "queryBlockAndTxs fuel w ch ty s = Some (Inr x, s1)"
    and i: "dbInsertCall w x s1 = Some (Inr u, s2)"
    and rest: "insertChunks fuel w ty chs s2 = Some (Inr (), s')"
    unfolding insertChunks.simps andThen_Inr by blast
  from queryBlockAndTxs_queries [OF q] obtain qs where
    s1: "s1 = s\<lparr> trace := trace s @ map Queries qs \<rparr>" and cq: "concat qs = ch" by blast
  from dbInsertCall_Some [OF i] have s2: "s2 = s1\<lparr> trace := trace s1 @ [Insert x] \<rparr>" .
  from Cons.IH [OF rest] obtain tr where
    s': "s' = s2\<lparr> trace := trace s2 @ tr \<rparr>"
    and n: "length (filter isInsert tr) = length chs"
    and h: "queriedHeights tr = concat chs" by blast
  have "s' = s\<lparr> trace := trace s @ (map Queries qs @ [Insert x] @ tr) \<rparr>"
    using s1 s2 s' by simp
  moreover have "length (filter isInsert (map Queries qs @ [Insert x] @ tr)) = length (ch # chs)"
    using n by simp
  moreover have "queriedHeights (map Queries qs @ [Insert x] @ tr) = concat (ch # chs)"
    using h cq by simp
  ultimately show ?case by blast
qed

lemma step_config:
  assumes "queryBlockAndTxs fuel w ch ty s = Some (Inr x, s1)"
    and "dbInsertCall w x s1 = Some (Inr u, s2)"
  shows "config s2 = config s"
proof -
  from queryBlockAndTxs_frame [OF assms(1)]
  obtain qs where "s1 = s\<lparr> trace := trace s @ map Queries qs \<rparr>" by blast
  moreover from dbInsertCall_Some [OF assms(2)]
  have "s2 = s1\<lparr> trace := trace s1 @ [Insert x] \<rparr>" .
  ultimately show ?thesis by simp
qed

lemma missingLoop_chunks:
  assumes "maxInsert (config s) = int m" "0 < m" "missingHeightList (config s) = xs"
    and "k \<le> length xs" "length (drop k xs) + 1 < n"
  shows "missingLoop n fuel w (int k) s = insertChunks fuel w MISSING (tailChunks m (drop k xs)) s"
  using assms
proof (induction n arbitrary: k s)
  case 0
  then show ?case by simp
next
  case (Suc n)
  let ?rest = "drop k xs"
  let ?ch = "take m ?rest"
  have sl: "js_slice xs (int k) (int k + int m) = ?ch"
    using Suc.prems(2) by (rule js_slice_chunk)
  have unfold: "missingLoop (Suc n) fuel w (int k) s
      = andThen (queryBlockAndTxs fuel w ?ch MISSING s)
          (\<lambda>r s1. andThen (dbInsertCall w r s1)
             (\<lambda>u s2. missingLoop n fuel w (int k + maxInsert (config s2)) s2))"
    using Suc.prems(1,3,4) by (simp add: sl)
  have tail: "missingLoop n fuel w (int k + maxInsert (config s2)) s2
              = insertChunks fuel w MISSING (if length ?rest < m then [] else tailChunks m (drop m ?rest)) s2"
    if cfg: "config s2 = config s" for s2
  proof (cases "length ?rest < m")
    case True
    then have "\<not> int k + int m \<le> int (length xs)" using Suc.prems(4) by simp
    moreover obtain n' where "n = Suc n'" using Suc.prems(5) by (cases n) simp_all
    ultimately show ?thesis
      using True cfg Suc.prems(1,3) by simp
  next
    case False
    then have km: "k + m \<le> length xs" using Suc.prems(4) by simp
    have len: "length (drop (k + m) xs) + 1 < n" using Suc.prems(2,5) False by simp
    have "missingLoop n fuel w (int (k + m)) s2
          = insertChunks fuel w MISSING (tailChunks m (drop (k + m) xs)) s2"
      using Suc.IH [of s2 "k + m"] Suc.prems(1,2,3) cfg km len by simp
    then show ?thesis
      using False cfg Suc.prems(1) by (simp add: add.commute)
  qed
  have chunks: "tailChunks m ?rest
                = ?ch # (if length ?rest < m then [] else tailChunks m (drop m ?rest))"
  proof (cases "length ?rest < m")
    case True
    then show ?thesis using Suc.prems(2) by (simp add: tailChunks_short)
  next
    case False
    then have "m \<le> length ?rest" by simp
    from tailChunks_step [OF Suc.prems(2) this] False show ?thesis by simp
  qed
  have "andThen (queryBlockAndTxs fuel w ?ch MISSING s)
          (\<lambda>r s1. andThen (dbInsertCall w r s1)
             (\<lambda>u s2. missingLoop n fuel w (int k + maxInsert (config s2)) s2))
      = andThen (queryBlockAndTxs fuel w ?ch MISSING s)
          (\<lambda>r s1. andThen (dbInsertCall w r s1)
             (\<lambda>u s2. insertChunks fuel w MISSING
                 (if length ?rest < m then [] else tailChunks m (drop m ?rest)) s2))"
  proof (rule andThen_cong_state)
    fix r s1
    assume q: "queryBlockAndTxs fuel w ?ch MISSING s = Some (Inr r, s1)"
    show "andThen (dbInsertCall w r s1)
             (\<lambda>u s2. missingLoop n fuel w (int k + maxInsert (config s2)) s2)
        = andThen (dbInsertCall w r s1)
             (\<lambda>u s2. insertChunks fuel w MISSING
                 (if length ?rest < m then [] else tailChunks m (drop m ?rest)) s2)"
    proof (rule andThen_cong_state)
      fix u s2
      assume i: "dbInsertCall w r s1 = Some (Inr u, s2)"
      have "config s2 = config s"
        using step_config [OF q i] .
      then show "missingLoop n fuel w (int k + maxInsert (config s2)) s2
          = insertChunks fuel w MISSING
              (if length ?rest < m then [] else tailChunks m (drop m ?rest)) s2"
        by (rule tail)
    qed
  qed
  then show ?case
    unfolding unfold by (subst chunks) simp
qed

lemma missingLoop_returns:
  assumes "maxInsert (config s) = int m" "0 < m" "missingHeightList (config s) = xs"
    and "k \<le> length xs"
    and "missingLoop n fuel w (int k) s = Some x"
  shows "insertChunks fuel w MISSING (tailChunks m (drop k xs)) s = Some x"
  using assms
proof (induction n arbitrary: k s)
  case 0
  then show ?case by simp
next
  case (Suc n)
  let ?rest = "drop k xs"
  let ?ch = "take m ?rest"
  let ?tl = "if length ?rest < m then [] else tailChunks m (drop m ?rest)"
  have sl: "js_slice xs (int k) (int k + int m) = ?ch"
    using Suc.prems(2) by (rule js_slice_chunk)
  have unfold: "missingLoop (Suc n) fuel w (int k) s
      = andThen (queryBlockAndTxs fuel w ?ch MISSING s)
          (\<lambda>r s1. andThen (dbInsertCall w r s1)
             (\<lambda>u s2. missingLoop n fuel w (int k + maxInsert (config s2)) s2))"
    using Suc.prems(1,3,4) by (simp add: sl)
  have tail: "insertChunks fuel w MISSING ?tl s2 = Some x"
    if cfg: "config s2 = config s"
      and run: "missingLoop n fuel w (int k + maxInsert (config s2)) s2 = Some x" for s2
  proof (cases "length ?rest < m")
    case True
    then have beyond: "\<not> int k + int m \<le> int (length xs)" using Suc.prems(4) by simp
    obtain n' where n': "n = Suc n'" using run by (cases n) simp_all
    have "x = (Inr (), s2)"
      using run beyond cfg Suc.prems(1,3) unfolding n' by simp
    then show ?thesis using True by simp
  next
    case False
    then have km: "k + m \<le> length xs" using Suc.prems(4) by simp
    have run': "missingLoop n fuel w (int (k + m)) s2 = Some x"
      using run cfg Suc.prems(1) by simp
    have "insertChunks fuel w MISSING (tailChunks m (drop (k + m) xs)) s2 = Some x"
      using Suc.IH [of s2 "k + m"] Suc.prems(1,2,3) cfg km run' by simp
    then show ?thesis using False by (simp add: add.commute)
  qed
  have chunks: "tailChunks m ?rest = ?ch # ?tl"
  proof (cases "length ?rest < m")
    case True
    then show ?thesis using Suc.prems(2) by (simp add: tailChunks_short)
  next
    case False
    then have "m \<le> length ?rest" by simp
    from tailChunks_step [OF Suc.prems(2) this] False show ?thesis by simp
  qed
  have run: "andThen (queryBlockAndTxs fuel w ?ch MISSING s)
          (\<lambda>r s1. andThen (dbInsertCall w r s1)
             (\<lambda>u s2. missingLoop n fuel w (int k + maxInsert (config s2)) s2)) = Some x"
    using Suc.prems(5) unfolding unfold .
  have "andThen (queryBlockAndTxs fuel w ?ch MISSING s)
          (\<lambda>r s1. andThen (dbInsertCall w r s1)
             (\<lambda>u s2. insertChunks fuel w MISSING ?tl s2)) = Some x"
  proof (rule andThen_mono [OF run])
    fix r s1
    assume q: "queryBlockAndTxs fuel w ?ch MISSING s = Some (Inr r, s1)"
      and inner: "andThen (dbInsertCall w r s1)
             (\<lambda>u s2. missingLoop n fuel w (int k + maxInsert (config s2)) s2) = Some x"
    show "andThen (dbInsertCall w r s1) (\<lambda>u s2. insertChunks fuel w MISSING ?tl s2) = Some x"
    proof (rule andThen_mono [OF inner])
      fix u s2
      assume i: "dbInsertCall w r s1 = Some (Inr u, s2)"
        and l: "missingLoop n fuel w (int k + maxInsert (config s2)) s2 = Some x"
      have "config s2 = config s" using step_config [OF q i] .
      then show "insertChunks fuel w MISSING ?tl s2 = Some x" using l by (rule tail)
    qed
  qed
  then show ?case by (subst chunks) simp
qed


lemma length_le_concat: "ch \<in> set chs \<Longrightarrow> length ch \<le> length (concat chs)"
  by (induction chs) auto

lemma queryMissingHeight_returns:
  assumes "0 < maxInsert (config s)"
  shows "\<exists>chunks.
           concat chunks = missingHeightList (config s)
         \<and> int (length chunks)
             = int (length (missingHeightList (config s))) div maxInsert (config s) + 1
         \<and> (\<forall>ch\<in>set chunks. int (length ch) \<le> maxInsert (config s))
         \<and> (last chunks = [] \<longleftrightarrow> maxInsert (config s) dvd int (length (missingHeightList (config s))))
         \<and> (\<forall>x. queryMissingHeight fuel w s = Some x
               \<longrightarrow> insertChunks fuel w MISSING chunks s = Some x)
         \<and> (\<forall>s'. queryMissingHeight fuel w s = Some (Inr (), s')
               \<longrightarrow> (\<exists>tr. s' = s\<lparr> trace := trace s @ tr \<rparr>
                      \<and> length (filter isInsert tr) = length chunks
                      \<and> queriedHeights tr = missingHeightList (config s)))
         \<and> (0 < concurrentQueryLimit (config s)
              \<and> length (missingHeightList (config s)) + 1 < fuel
             \<longrightarrow> (\<exists>r s'. queryMissingHeight fuel w s = Some (r, s'))
               \<and> queryMissingHeight fuel w s = insertChunks fuel w MISSING chunks s)"
proof -
  define m where "m = nat (maxInsert (config s))"
  define xs where "xs = missingHeightList (config s)"
  have m: "maxInsert (config s) = int m" "0 < m" using assms(1) by (simp_all add: m_def)
  let ?chunks = "tailChunks m xs"
  have x: "missingHeightList (config s) = xs" by (simp add: xs_def)
  have c1: "concat ?chunks = xs" using m(2) by (rule concat_tailChunks)
  have c2: "int (length ?chunks) = int (length xs) div int m + 1"
    using length_tailChunks [OF m(2), of xs] by (simp add: zdiv_int)
  have c3: "\<forall>ch\<in>set ?chunks. int (length ch) \<le> int m"
    using tailChunks_bounded [OF m(2)] by fastforce
  have c4: "last ?chunks = [] \<longleftrightarrow> int m dvd int (length xs)"
    using last_tailChunks [OF m(2), of xs] by simp
  have ref: "insertChunks fuel w MISSING ?chunks s = Some y"
    if "queryMissingHeight fuel w s = Some y" for y
    using missingLoop_returns [OF m x, of 0 fuel fuel w y] that
    by (simp add: queryMissingHeight_def)
  have c5: "\<forall>y. queryMissingHeight fuel w s = Some y
               \<longrightarrow> insertChunks fuel w MISSING ?chunks s = Some y"
    using ref by blast
  have c6: "\<forall>s'. queryMissingHeight fuel w s = Some (Inr (), s')
               \<longrightarrow> (\<exists>tr. s' = s\<lparr> trace := trace s @ tr \<rparr>
                      \<and> length (filter isInsert tr) = length ?chunks
                      \<and> queriedHeights tr = xs)"
  proof (intro allI impI)
    fix s'
    assume "queryMissingHeight fuel w s = Some (Inr (), s')"
    then have "insertChunks fuel w MISSING ?chunks s = Some (Inr (), s')" by (rule ref)
    from insertChunks_returns [OF this] show "\<exists>tr. s' = s\<lparr> trace := trace s @ tr \<rparr>
                      \<and> length (filter isInsert tr) = length ?chunks
                      \<and> queriedHeights tr = xs"
      unfolding c1 .
  qed
  have c7: "0 < concurrentQueryLimit (config s) \<and> length xs + 1 < fuel
             \<longrightarrow> (\<exists>r s'. queryMissingHeight fuel w s = Some (r, s'))
               \<and> queryMissingHeight fuel w s = insertChunks fuel w MISSING ?chunks s"
  proof (intro impI)
    assume a: "0 < concurrentQueryLimit (config s) \<and> length xs + 1 < fuel"
    then have c: "0 < concurrentQueryLimit (config s)" by simp
    have fuel: "length (drop 0 xs) + 1 < fuel" "length xs < fuel" using a by simp_all
    have eq: "queryMissingHeight fuel w s = insertChunks fuel w MISSING ?chunks s"
      using missingLoop_chunks [OF m x _ fuel(1), of fuel w]
      by (simp add: queryMissingHeight_def)
    have "\<forall>ch\<in>set ?chunks. length ch < fuel"
    proof
      fix ch assume "ch \<in> set ?chunks"
      then have "length ch \<le> length (concat ?chunks)" by (rule length_le_concat)
      then show "length ch < fuel" using c1 fuel(2) by simp
    qed
    from insertChunks_outcome [OF c this, of w MISSING] obtain r tr where
      "insertChunks fuel w MISSING ?chunks s = Some (r, s\<lparr> trace := trace s @ tr \<rparr>)"
      by blast
    with eq show "(\<exists>r s'. queryMissingHeight fuel w s = Some (r, s'))
               \<and> queryMissingHeight fuel w s = insertChunks fuel w MISSING ?chunks s"
      by simp
  qed
  show ?thesis
    unfolding x m(1) using c1 c2 c3 c4 c5 c6 c7 by blast
qed

text \<open>
  Claim C9. With a positive \<open>maxInsert\<close> \<open>m\<close> and a list of length \<open>L\<close>, the slices that
  \<open>queryMissingHeight\<close> takes are \<open>L div m + 1\<close> chunks of at most \<open>m\<close> heights whose
  concatenation is the list; the last chunk is empty exactly when \<open>m\<close> divides \<open>L\<close>
  (the empty list included). Whatever \<open>queryMissingHeight\<close> ends with, fetching and
  inserting these chunks one after the other ends with the same; when it returns without
  a failure, the sink has been called \<open>L div m + 1\<close> times and the heights queried are
  the list, each element once, in order. With a positive \<open>concurrentQueryLimit\<close> it ends
  on every list.
\<close>

theorem queryMissingHeight_chunks:
  assumes "0 < maxInsert (config s)"
  shows "\<exists>chunks.
           concat chunks = missingHeightList (config s)
         \<and> int (length chunks)
             = int (length (missingHeightList (config s))) div maxInsert (config s) + 1
         \<and> (\<forall>ch\<in>set chunks. int (length ch) \<le> maxInsert (config s))
         \<and> (last chunks = [] \<longleftrightarrow> maxInsert (config s) dvd int (length (missingHeightList (config s))))
         \<and> (\<forall>x. queryMissingHeight fuel w s = Some x
               \<longrightarrow> insertChunks fuel w MISSING chunks s = Some x)
         \<and> (\<forall>s'. queryMissingHeight fuel w s = Some (Inr (), s')
               \<longrightarrow> (\<exists>tr. s' = s\<lparr> trace := trace s @ tr \<rparr>
                      \<and> length (filter isInsert tr) = length chunks
                      \<and> queriedHeights tr = missingHeightList (config s)))
         \<and> (0 < concurrentQueryLimit (config s)
              \<and> length (missingHeightList (config s)) + 1 < fuel
             \<longrightarrow> (\<exists>r s'. queryMissingHeight fuel w s = Some (r, s'))
               \<and> queryMissingHeight fuel w s = insertChunks fuel w MISSING chunks s)"
  using assms by (rule queryMissingHeight_returns)

theorem queryMissingHeight_chunks_witness:
  "0 < maxInsert (config (scannerWith missingConfig))
   \<and> 0 < concurrentQueryLimit (config (scannerWith missingConfig))
   \<and> length (missingHeightList (config (scannerWith missingConfig))) + 1 < 6
   \<and> queryMissingHeight 6 (calmWorld [(1, 1)]) (scannerWith missingConfig)
       = Some (Inr (),
               (scannerWith missingConfig)
                 \<lparr> trace := [Queries [10, 20], Insert (AllResult (fetched MISSING [10, 20])),
                              Queries [30, 40], Insert (AllResult (fetched MISSING [30, 40])),
                              Insert (AllResult (fetched MISSING []))] \<rparr>)"
proof -
  have h1: "0 < maxInsert (config (scannerWith missingConfig))"
    by (simp add: scannerWith_def missingConfig_def)
  have h2: "0 < concurrentQueryLimit (config (scannerWith missingConfig))"
    by (simp add: scannerWith_def missingConfig_def defaultOptions_def)
  have h3: "length (missingHeightList (config (scannerWith missingConfig))) + 1 < 6"
    by (simp add: scannerWith_def missingConfig_def)
  have ev: "queryMissingHeight 6 (calmWorld [(1, 1)]) (scannerWith missingConfig)
       = Some (Inr (),
               (scannerWith missingConfig)
                 \<lparr> trace := [Queries [10, 20], Insert (AllResult (fetched MISSING [10, 20])),
                              Queries [30, 40], Insert (AllResult (fetched MISSING [30, 40])),
                              Insert (AllResult (fetched MISSING []))] \<rparr>)"
    by (simp add: queryMissingHeight_def queryBlockAndTxs_def queryAllBlocksAndTxs_def
        dbInsertCall_def andThen_def eval_nat_numeral js_slice_def Let_def
        scannerWith_def missingConfig_def defaultOptions_def calmWorld_def fetched_def
        blockAt_def txsAt_def)
  show ?thesis
    using queryMissingHeight_chunks [of "scannerWith missingConfig" 6 "calmWorld [(1, 1)]", OF h1]
      h1 h2 h3 ev
    by - (intro conjI, assumption+)
qed
end
